theory Spec2Isabelle
  imports Complex_Main "HOL-Library.Multiset" "HOL-Library.Product_Lexorder"
begin

section \<open>Data model\<close>

text \<open>
  The component \<^verbatim>\<open>TspVisualizer\<close> of \<^verbatim>\<open>src/components/tsp-visualizer.tsx\<close> builds a
  tour over the points it holds in its state. A \<^verbatim>\<open>Point\<close> is an object with two numeric
  fields \<^verbatim>\<open>x\<close> and \<^verbatim>\<open>y\<close>; the fields are called \<open>px\<close> and \<open>py\<close> here. The source compares
  points by reference (\<^verbatim>\<open>p !== startPoint\<close>, \<^verbatim>\<open>includes\<close>, \<^verbatim>\<open>indexOf\<close>); the generator never
  produces two points with the same coordinates, so on the point sets considered here
  (\<open>distinct\<close> lists) reference equality and equality of values coincide. The repository
  holds an older copy of the component, \<^verbatim>\<open>src/unnamed/part_000\<close>; its furthest insertion is
  modelled too, further down.
\<close>

record point =
  px :: real
  py :: real

section \<open>Numbers\<close>

text \<open>
  A JavaScript number is an IEEE 754 double: a real number \<open>m * 2 ^ e\<close> with whole \<open>m\<close> and
  \<open>e\<close> and \<open>\<bar>m\<bar> < 2 ^ 53\<close>. An arithmetic operation returns the double nearest to the exact
  result, and of two doubles equally near the one whose \<open>m\<close> is even. \<open>ulp x\<close> is the distance
  between neighbouring doubles at the magnitude of \<open>x\<close>, and \<open>rnd x\<close> the double nearest to
  \<open>x\<close>. The bounds on \<open>e\<close> are left out (no overflow to \<^verbatim>\<open>Infinity\<close>, no underflow): the
  coordinates of the generator are whole numbers below \<open>800\<close>, and no value computed from
  them comes near \<open>2 ^ 1024\<close> or \<open>2 ^ -1022\<close>.
\<close>

definition nearest_even :: "real \<Rightarrow> int" where
  "nearest_even z =
     (if z - of_int \<lfloor>z\<rfloor> < 1 / 2 then \<lfloor>z\<rfloor>
      else if 1 / 2 < z - of_int \<lfloor>z\<rfloor> then \<lfloor>z\<rfloor> + 1
      else if even \<lfloor>z\<rfloor> then \<lfloor>z\<rfloor> else \<lfloor>z\<rfloor> + 1)"

definition ulp :: "real \<Rightarrow> real" where
  "ulp x = 2 powr of_int (\<lfloor>log 2 \<bar>x\<bar>\<rfloor> - 52)"

definition rnd :: "real \<Rightarrow> real" where
  "rnd x = (if x = 0 then 0 else of_int (nearest_even (x / ulp x)) * ulp x)"

text \<open>
  The operators \<^verbatim>\<open>+\<close>, \<^verbatim>\<open>-\<close>, \<^verbatim>\<open>*\<close> and \<^verbatim>\<open>Math.sqrt\<close> on doubles. \<^verbatim>\<open>x ** 2\<close> is read as
  \<^verbatim>\<open>x * x\<close>: both are exact on the whole numbers that the coordinates of the generator
  give.
\<close>

definition fadd :: "real \<Rightarrow> real \<Rightarrow> real" where
  "fadd a b = rnd (a + b)"

definition fsub :: "real \<Rightarrow> real \<Rightarrow> real" where
  "fsub a b = rnd (a - b)"

definition fmul :: "real \<Rightarrow> real \<Rightarrow> real" where
  "fmul a b = rnd (a * b)"

definition fsqrt :: "real \<Rightarrow> real" where
  "fsqrt a = rnd (sqrt a)"

section \<open>Utility functions\<close>

definition distance :: "point \<Rightarrow> point \<Rightarrow> real" where
  "distance a b =
     fsqrt (fadd (fmul (fsub (px a) (px b)) (fsub (px a) (px b)))
                 (fmul (fsub (py a) (py b)) (fsub (py a) (py b))))"

text \<open>
  \<^verbatim>\<open>pathCost\<close>: the loop \<^verbatim>\<open>cost += distance(path[i], path[i + 1])\<close> from the left, with \<open>cost\<close>
  the sum so far.
\<close>

fun costFrom :: "real \<Rightarrow> point list \<Rightarrow> real" where
  "costFrom cost (a # b # rest) = costFrom (fadd cost (distance a b)) (b # rest)"
| "costFrom cost [a] = cost"
| "costFrom cost [] = cost"

definition pathCost :: "point list \<Rightarrow> real" where
  "pathCost path = costFrom 0 path"

text \<open>
  \<^verbatim>\<open>factorial\<close> is only applied to the value of the vertices slider, a natural number; its
  result is a double.
\<close>

fun factorial :: "nat \<Rightarrow> real" where
  "factorial n = (if n = 0 \<or> n = 1 then 1 else fmul (of_nat n) (factorial (n - 1)))"

declare factorial.simps [simp del]

section \<open>What a run of a strategy produces\<close>

text \<open>
  A variable that starts as \<^verbatim>\<open>Infinity\<close> (\<^verbatim>\<open>bestCost\<close>, \<^verbatim>\<open>nearestDistance\<close>,
  \<^verbatim>\<open>minDistanceToPath\<close>) is a \<open>num\<close>: \<open>None\<close> is \<^verbatim>\<open>Infinity\<close>, \<open>Some c\<close> the finite number \<open>c\<close>.
\<close>

type_synonym num = "real option"

fun num_less :: "num \<Rightarrow> num \<Rightarrow> bool" where
  "num_less (Some a) (Some b) = (a < b)"
| "num_less (Some a) None = True"
| "num_less None _ = False"

text \<open>
  A step is the argument of one call \<^verbatim>\<open>setCurrentPath(..)\<close>. The call of \<^verbatim>\<open>setMetrics\<close>
  beside it hands React a function that computes the distance shown when React applies
  it; it is not part of a step. A run records the local variables \<^verbatim>\<open>path\<close> and
  \<^verbatim>\<open>remainingPoints\<close> when the function returns, the steps in the order of emission, the
  argument of \<^verbatim>\<open>setBestPath\<close> with \<^verbatim>\<open>finalCost\<close> when it is called, and the value of
  \<^verbatim>\<open>algorithmRef.current?.stopped\<close> read last. Where an array holds \<^verbatim>\<open>undefined\<close> in a
  slot (an empty or one-point set), the lists here hold the points only.
\<close>

type_synonym step = "point list"

record run =
  tour :: "point list"
  remaining :: "point list"
  steps :: "step list"
  best :: "(point list \<times> real) option"
  stopped :: bool

datatype js_error = TypeError

text \<open>\<^verbatim>\<open>[...path, path[0]]\<close>\<close>

definition closing :: "point list \<Rightarrow> point list" where
  "closing path = path @ take 1 path"

text \<open>\<^verbatim>\<open>[...path.slice(0, i), p, ...path.slice(i)]\<close> and \<^verbatim>\<open>path.splice(i, 0, p)\<close>\<close>

definition insertAt :: "nat \<Rightarrow> point \<Rightarrow> point list \<Rightarrow> point list" where
  "insertAt i p path = take i path @ [p] @ drop i path"

text \<open>
  The flag \<^verbatim>\<open>algorithmRef.current?.stopped\<close> is written by \<^verbatim>\<open>resetVisualization\<close> while a
  strategy sleeps in its \<^verbatim>\<open>await\<close>. A strategy reads it in the condition of its \<^verbatim>\<open>while\<close>
  loop and once more right after the loop, with no \<^verbatim>\<open>await\<close> in between. \<open>stop k\<close> is the
  value of the flag when the loop condition is evaluated for the \<open>k\<close>-th time, counting
  from \<open>0\<close>; the read after the loop sees the value of the last evaluation. A token is the
  sequence of values that one run reads; which sequence the buttons pressed during a run
  give is \<open>observed\<close>, below.
\<close>

type_synonym token = "nat \<Rightarrow> bool"

text \<open>
  Two handlers write the ref. \<^verbatim>\<open>startAlgorithm\<close> puts a fresh object \<^verbatim>\<open>{ stopped: false }\<close> into
  \<^verbatim>\<open>algorithmRef.current\<close>; \<^verbatim>\<open>resetVisualization\<close> sets \<^verbatim>\<open>stopped\<close> of the object that the ref
  holds. A strategy keeps no reference to the object of its own start: every read goes
  through \<^verbatim>\<open>algorithmRef.current\<close> and sees the flag of the object held at that moment. The
  handlers run when a button is pressed, which happens only while the strategy sleeps in
  an \<^verbatim>\<open>await\<close>. \<open>pressed b ref\<close> is the ref after button \<open>b\<close>, and \<open>flagAfter bs\<close> the flag that
  a strategy reads once the buttons \<open>bs\<close> have been pressed, in this order, since the call of
  \<^verbatim>\<open>startAlgorithm\<close> that started it.
\<close>

datatype button = Reset | Start

definition pressed :: "button \<Rightarrow> bool option \<Rightarrow> bool option" where
  "pressed b ref = (case b of Reset \<Rightarrow> map_option (\<lambda>_. True) ref | Start \<Rightarrow> Some False)"

definition flagAfter :: "button list \<Rightarrow> bool" where
  "flagAfter bs = (foldl (\<lambda>ref b. pressed b ref) (Some False) bs = Some True)"

section \<open>Nearest neighbour\<close>

text \<open>The part after the loop: \<^verbatim>\<open>path.push(startPoint)\<close>, \<^verbatim>\<open>setBestPath(path)\<close>.\<close>

definition nn_finish :: "bool \<Rightarrow> point \<Rightarrow> point list \<Rightarrow> point list \<Rightarrow> step list \<Rightarrow> run" where
  "nn_finish flag startPoint path rem sts =
     (if \<not> flag
      then (let path' = path @ [startPoint]
            in \<lparr>tour = path', remaining = rem, steps = sts,
                best = Some (path', pathCost path'), stopped = False\<rparr>)
      else \<lparr>tour = path, remaining = rem, steps = sts, best = None, stopped = True\<rparr>)"

text \<open>
  \<^verbatim>\<open>remainingPoints.sort((a, b) => distance(lastPoint, a) - distance(lastPoint, b))\<close> is a
  stable sort by ascending distance (a difference of two doubles has the sign of their
  exact difference), \<^verbatim>\<open>shift()\<close> takes its first element.
\<close>

function nn_loop :: "token \<Rightarrow> nat \<Rightarrow> point \<Rightarrow> point list \<Rightarrow> point list \<Rightarrow> step list \<Rightarrow> run" where
  "nn_loop stop k startPoint path rem sts =
     (if rem \<noteq> [] \<and> \<not> stop k
      then (let lastPoint = last path;
                sorted = sort_key (\<lambda>p. distance lastPoint p) rem;
                path' = path @ [hd sorted]
            in nn_loop stop (Suc k) startPoint path' (tl sorted) (sts @ [path']))
      else nn_finish (stop k) startPoint path rem sts)"
  by pat_completeness auto
termination
  by (relation "measure (\<lambda>(stop, k, startPoint, path, rem, sts). length rem)") auto

declare nn_loop.simps [simp del]

text \<open>
  \<open>r\<close> is the value of \<^verbatim>\<open>Math.floor(Math.random() * points.length)\<close>. It is below
  \<open>length points\<close> unless the set is empty; \<^verbatim>\<open>points[r]\<close> is then \<^verbatim>\<open>undefined\<close>, and the first
  call of \<^verbatim>\<open>distance\<close> reads a field of \<^verbatim>\<open>undefined\<close>, unless the run is stopped before.
\<close>

definition nearestNeighbor :: "nat \<Rightarrow> token \<Rightarrow> point list \<Rightarrow> js_error + run" where
  "nearestNeighbor r stop points =
     (if r < length points
      then (let startPoint = points ! r
            in Inr (nn_loop stop 0 startPoint [startPoint]
                      (filter (\<lambda>p. p \<noteq> startPoint) points) []))
      else if stop 0
      then Inr \<lparr>tour = [], remaining = points, steps = [], best = None, stopped = True\<rparr>
      else Inl TypeError)"

section \<open>Arbitrary insertion\<close>

text \<open>
  The \<^verbatim>\<open>for\<close> loop over \<^verbatim>\<open>i = 0 .. path.length\<close>: the state is
  \<^verbatim>\<open>(bestPosition, bestCost)\<close>, the cost of a candidate is \<^verbatim>\<open>pathCost(newPath)\<close>.
\<close>

definition ai_try :: "point list \<Rightarrow> point \<Rightarrow> nat \<times> num \<Rightarrow> nat \<Rightarrow> nat \<times> num" where
  "ai_try path nextPoint acc i =
     (let cost = pathCost (insertAt i nextPoint path)
      in if num_less (Some cost) (snd acc) then (i, Some cost) else acc)"

definition ai_scan :: "point list \<Rightarrow> point \<Rightarrow> nat \<times> num" where
  "ai_scan path nextPoint = foldl (ai_try path nextPoint) (0, None) [0..<Suc (length path)]"

text \<open>
  The part after the loop, here and in the hull strategy:
  \<^verbatim>\<open>const finalPath = [...path, path[0]]\<close>, \<^verbatim>\<open>setBestPath(finalPath)\<close>.
\<close>

definition ai_finish :: "bool \<Rightarrow> point list \<Rightarrow> point list \<Rightarrow> step list \<Rightarrow> run" where
  "ai_finish flag path rem sts =
     (if \<not> flag
      then (let finalPath = closing path
            in \<lparr>tour = path, remaining = rem, steps = sts,
                best = Some (finalPath, pathCost finalPath), stopped = False\<rparr>)
      else \<lparr>tour = path, remaining = rem, steps = sts, best = None, stopped = True\<rparr>)"

fun ai_loop :: "token \<Rightarrow> nat \<Rightarrow> point list \<Rightarrow> point list \<Rightarrow> step list \<Rightarrow> run" where
  "ai_loop stop k path [] sts = ai_finish (stop k) path [] sts"
| "ai_loop stop k path (nextPoint # rem) sts =
     (if \<not> stop k
      then (let (bestPosition, bestCost) = ai_scan path nextPoint;
                path' = insertAt bestPosition nextPoint path
            in ai_loop stop (Suc k) path' rem (sts @ [closing path']))
      else ai_finish (stop k) path (nextPoint # rem) sts)"

text \<open>
  \<^verbatim>\<open>points.find(p => p !== startPoint)\<close> is \<^verbatim>\<open>undefined\<close> when the set has one point; the
  loop is then skipped and \<^verbatim>\<open>pathCost(finalPath)\<close> reads a field of \<^verbatim>\<open>undefined\<close>.
\<close>

definition arbitraryInsertion :: "nat \<Rightarrow> token \<Rightarrow> point list \<Rightarrow> js_error + run" where
  "arbitraryInsertion r stop points =
     (if r < length points
      then (let startPoint = points ! r
            in case find (\<lambda>p. p \<noteq> startPoint) points of
                 Some second \<Rightarrow>
                   (let path = [startPoint, second]
                    in Inr (ai_loop stop 0 path (filter (\<lambda>p. p \<notin> set path) points) []))
               | None \<Rightarrow>
                   if stop 0
                   then Inr \<lparr>tour = [startPoint],
                             remaining = filter (\<lambda>p. p \<noteq> startPoint) points,
                             steps = [], best = None, stopped = True\<rparr>
                   else Inl TypeError)
      else if stop 0
      then Inr \<lparr>tour = take 1 points, remaining = drop 1 points, steps = [], best = None,
                stopped = True\<rparr>
      else Inl TypeError)"

section \<open>Nearest insertion\<close>

text \<open>The cost \<^verbatim>\<open>d\<close> of putting \<^verbatim>\<open>point\<close> between \<^verbatim>\<open>path[i]\<close> and its cyclic successor.\<close>

definition edgeCost :: "point list \<Rightarrow> nat \<Rightarrow> point \<Rightarrow> real" where
  "edgeCost path i point =
     fsub (fadd (distance (path ! i) point) (distance point (path ! ((i + 1) mod length path))))
          (distance (path ! i) (path ! ((i + 1) mod length path)))"

text \<open>
  The nested \<^verbatim>\<open>for\<close> loops over the remaining points and the indices \<^verbatim>\<open>i < path.length\<close>;
  the state is \<^verbatim>\<open>(nearestPoint, nearestDistance, insertPosition)\<close>, \<open>None\<close> for \<^verbatim>\<open>null\<close>.
\<close>

definition ni_try :: "point list \<Rightarrow> point \<Rightarrow> point option \<times> num \<times> nat \<Rightarrow> nat
    \<Rightarrow> point option \<times> num \<times> nat" where
  "ni_try path point acc i =
     (let d = edgeCost path i point
      in if num_less (Some d) (fst (snd acc)) then (Some point, Some d, i + 1) else acc)"

definition ni_scan :: "point list \<Rightarrow> point list \<Rightarrow> point option \<times> num \<times> nat" where
  "ni_scan path rem =
     foldl (\<lambda>acc point. foldl (ni_try path point) acc [0..<length path]) (None, None, 0) rem"

text \<open>
  The part after the loop, here and in furthest insertion: \<^verbatim>\<open>path.push(path[0])\<close>,
  \<^verbatim>\<open>setBestPath(path)\<close>.
\<close>

definition ni_finish :: "bool \<Rightarrow> point list \<Rightarrow> point list \<Rightarrow> step list \<Rightarrow> run" where
  "ni_finish flag path rem sts =
     (if \<not> flag
      then (let path' = closing path
            in \<lparr>tour = path', remaining = rem, steps = sts,
                best = Some (path', pathCost path'), stopped = False\<rparr>)
      else \<lparr>tour = path, remaining = rem, steps = sts, best = None, stopped = True\<rparr>)"

text \<open>
  When the scan leaves \<^verbatim>\<open>nearestPoint\<close> at \<^verbatim>\<open>null\<close> the body does nothing, not even
  \<^verbatim>\<open>await\<close>, and the loop condition is evaluated again on the same state: the loop never
  ends. \<^verbatim>\<open>remainingPoints.splice(remainingPoints.indexOf(nearestPoint), 1)\<close> removes the
  first occurrence.
\<close>

partial_function (option) ni_loop ::
  "token \<Rightarrow> nat \<Rightarrow> point list \<Rightarrow> point list \<Rightarrow> step list \<Rightarrow> run option" where
  "ni_loop stop k path rem sts =
     (if rem \<noteq> [] \<and> \<not> stop k
      then (case fst (ni_scan path rem) of
              Some nearestPoint \<Rightarrow>
                (let path' = insertAt (snd (snd (ni_scan path rem))) nearestPoint path
                 in ni_loop stop (Suc k) path' (remove1 nearestPoint rem)
                      (sts @ [closing path']))
            | None \<Rightarrow> ni_loop stop k path rem sts)
      else Some (ni_finish (stop k) path rem sts))"

definition nearestInsertion :: "nat \<Rightarrow> token \<Rightarrow> point list \<Rightarrow> (js_error + run) option" where
  "nearestInsertion r stop points =
     (if r < length points
      then (let startPoint = points ! r
            in case find (\<lambda>p. p \<noteq> startPoint) points of
                 Some second \<Rightarrow>
                   (let path = [startPoint, second]
                    in map_option Inr
                         (ni_loop stop 0 path (filter (\<lambda>p. p \<notin> set path) points) []))
               | None \<Rightarrow>
                   if stop 0
                   then Some (Inr \<lparr>tour = [startPoint],
                                   remaining = filter (\<lambda>p. p \<noteq> startPoint) points,
                                   steps = [], best = None, stopped = True\<rparr>)
                   else Some (Inl TypeError))
      else if stop 0
      then Some (Inr \<lparr>tour = take 1 points, remaining = drop 1 points, steps = [],
                      best = None, stopped = True\<rparr>)
      else Some (Inl TypeError))"

section \<open>Furthest insertion\<close>

text \<open>The inner loop of the selection: the least distance from \<^verbatim>\<open>freePoint\<close> to the path.\<close>

definition nearer :: "point \<Rightarrow> num \<Rightarrow> point \<Rightarrow> num" where
  "nearer freePoint m pathPoint =
     (let dist = distance freePoint pathPoint
      in if num_less (Some dist) m then Some dist else m)"

definition minDistanceToPath :: "point \<Rightarrow> point list \<Rightarrow> num" where
  "minDistanceToPath freePoint path = foldl (nearer freePoint) None path"

text \<open>The selection: the state is \<^verbatim>\<open>(selectedDistance, selectedPoint)\<close>, starting at \<^verbatim>\<open>(0, null)\<close>.\<close>

definition fi_pick :: "point list \<Rightarrow> num \<times> point option \<Rightarrow> point \<Rightarrow> num \<times> point option" where
  "fi_pick path acc freePoint =
     (let m = minDistanceToPath freePoint path
      in if num_less (fst acc) m then (m, Some freePoint) else acc)"

definition fi_select :: "point list \<Rightarrow> point list \<Rightarrow> num \<times> point option" where
  "fi_select path rem = foldl (fi_pick path) (Some 0, None) rem"

text \<open>The insertion: the state is \<^verbatim>\<open>(bestCost, bestIdx)\<close>, starting at \<^verbatim>\<open>(Infinity, 0)\<close>.\<close>

definition fi_try :: "point list \<Rightarrow> point \<Rightarrow> num \<times> nat \<Rightarrow> nat \<Rightarrow> num \<times> nat" where
  "fi_try path selectedPoint acc i =
     (let insertionCost = edgeCost path i selectedPoint
      in if num_less (Some insertionCost) (fst acc) then (Some insertionCost, i + 1) else acc)"

definition fi_place :: "point list \<Rightarrow> point \<Rightarrow> num \<times> nat" where
  "fi_place path selectedPoint = foldl (fi_try path selectedPoint) (None, 0) [0..<length path]"

partial_function (option) fi_loop ::
  "token \<Rightarrow> nat \<Rightarrow> point list \<Rightarrow> point list \<Rightarrow> step list \<Rightarrow> run option" where
  "fi_loop stop k path rem sts =
     (if rem \<noteq> [] \<and> \<not> stop k
      then (case snd (fi_select path rem) of
              Some selectedPoint \<Rightarrow>
                (let path' = insertAt (snd (fi_place path selectedPoint)) selectedPoint path
                 in fi_loop stop (Suc k) path' (filter (\<lambda>p. p \<noteq> selectedPoint) rem)
                      (sts @ [path']))
            | None \<Rightarrow> fi_loop stop k path rem sts)
      else Some (ni_finish (stop k) path rem sts))"

text \<open>
  \<^verbatim>\<open>remainingPoints.sort((a, b) => distance(path[0], b) - distance(path[0], a))\<close> is a stable
  sort by descending distance from the first point. The first step is emitted before the
  loop, whatever the flag. On the empty set \<^verbatim>\<open>path\<close> is \<^verbatim>\<open>[undefined]\<close>.
\<close>

definition furthestInsertion :: "token \<Rightarrow> point list \<Rightarrow> (js_error + run) option" where
  "furthestInsertion stop points =
     (case points of
        [] \<Rightarrow>
          if stop 0
          then Some (Inr \<lparr>tour = [], remaining = [], steps = [[]], best = None,
                          stopped = True\<rparr>)
          else Some (Inl TypeError)
      | first # others \<Rightarrow>
          (let sorted = sort_key (\<lambda>p. - distance first p) others;
               path = first # take 1 sorted
           in map_option Inr
                (fi_loop stop 0 path (drop 1 sorted) [path])))"

section \<open>Convex hull\<close>

text \<open>
  The cross product of the hull scan is applied to the coordinates themselves. On whole
  coordinates of absolute value below \<open>2 ^ 25\<close>, those of the generator among them, every
  difference and product in it is a whole number below \<open>2 ^ 53\<close>, which doubles compute
  exactly (lemma \<open>cross_on_whole_coordinates\<close>); it is written with exact operations.
\<close>

definition cross :: "point \<Rightarrow> point \<Rightarrow> point \<Rightarrow> real" where
  "cross o' a b = (px a - px o') * (py b - py o') - (py a - py o') * (px b - px o')"

text \<open>
  A hull under construction is kept as a stack, its last element first.
  \<open>hullPop\<close> is the \<^verbatim>\<open>while\<close> loop that pops, \<open>hullPush\<close> one round of the \<^verbatim>\<open>for\<close> loop.
\<close>

fun hullPop :: "point list \<Rightarrow> point \<Rightarrow> point list" where
  "hullPop (b # a # rest) p = (if cross a b p \<le> 0 then hullPop (a # rest) p else b # a # rest)"
| "hullPop st p = st"

definition hullPush :: "point list \<Rightarrow> point \<Rightarrow> point list" where
  "hullPush st p = p # hullPop st p"

definition halfHull :: "point list \<Rightarrow> point list" where
  "halfHull pts = rev (foldl hullPush [] pts)"

text \<open>
  \<^verbatim>\<open>[...points].sort((a, b) => a.x - b.x || a.y - b.y)\<close> is a stable sort by \<^verbatim>\<open>x\<close>, then
  by \<^verbatim>\<open>y\<close>.
\<close>

definition sortedPoints :: "point list \<Rightarrow> point list" where
  "sortedPoints points = sort_key (\<lambda>p. (px p, py p)) points"

text \<open>\<^verbatim>\<open>[...lowerHull.slice(0, -1), ...upperHull.slice(0, -1)]\<close>\<close>

definition hullPoints :: "point list \<Rightarrow> point list" where
  "hullPoints points =
     (let lowerHull = halfHull (sortedPoints points);
          upperHull = halfHull (rev (sortedPoints points))
      in butlast lowerHull @ butlast upperHull)"

text \<open>The loop is the one of nearest insertion, with \<^verbatim>\<open>filter\<close> for the removal.\<close>

partial_function (option) ch_loop ::
  "token \<Rightarrow> nat \<Rightarrow> point list \<Rightarrow> point list \<Rightarrow> step list \<Rightarrow> run option" where
  "ch_loop stop k path rem sts =
     (if rem \<noteq> [] \<and> \<not> stop k
      then (case fst (ni_scan path rem) of
              Some nearestPoint \<Rightarrow>
                (let path' = insertAt (snd (snd (ni_scan path rem))) nearestPoint path
                 in ch_loop stop (Suc k) path' (filter (\<lambda>p. p \<noteq> nearestPoint) rem)
                      (sts @ [closing path']))
            | None \<Rightarrow> ch_loop stop k path rem sts)
      else Some (ai_finish (stop k) path rem sts))"

definition convexHull :: "token \<Rightarrow> point list \<Rightarrow> run option" where
  "convexHull stop points =
     (let path = hullPoints points
      in ch_loop stop 0 path (filter (\<lambda>p. p \<notin> set path) points) [closing path])"

section \<open>The older copy of the component\<close>

text \<open>
  The older copy of the component, \<^verbatim>\<open>src/unnamed/part_000\<close>, starts furthest insertion with
  \<^verbatim>\<open>let path = [points.shift()]\<close> and \<^verbatim>\<open>let remainingPoints = [...points]\<close>: it takes the first
  point out of the state array itself. Its loop has no test of \<^verbatim>\<open>selectedPoint\<close>: with
  \<^verbatim>\<open>null\<close> the insertion reads \<^verbatim>\<open>null.x\<close>. The function is modelled with the array \<^verbatim>\<open>points\<close>
  as it leaves it.
\<close>

partial_function (option) fi_loop_old ::
  "token \<Rightarrow> nat \<Rightarrow> point list \<Rightarrow> point list \<Rightarrow> step list \<Rightarrow> (js_error + run) option" where
  "fi_loop_old stop k path rem sts =
     (if rem \<noteq> [] \<and> \<not> stop k
      then (case snd (fi_select path rem) of
              Some selectedPoint \<Rightarrow>
                (let path' = insertAt (snd (fi_place path selectedPoint)) selectedPoint path
                 in fi_loop_old stop (Suc k) path' (filter (\<lambda>p. p \<noteq> selectedPoint) rem)
                      (sts @ [path']))
            | None \<Rightarrow> Some (Inl TypeError))
      else Some (Inr (ni_finish (stop k) path rem sts)))"

definition furthestInsertion_old :: "token \<Rightarrow> point list \<Rightarrow> point list \<times> (js_error + run) option" where
  "furthestInsertion_old stop ps =
     (case ps of
        [] \<Rightarrow>
          ([], if stop 0
               then Some (Inr \<lparr>tour = [], remaining = [], steps = [[]], best = None,
                               stopped = True\<rparr>)
               else Some (Inl TypeError))
      | first # others \<Rightarrow>
          (others,
           case sort_key (\<lambda>p. - distance first p) others of
             [] \<Rightarrow>
               if stop 0
               then Some (Inr \<lparr>tour = [first], remaining = [], steps = [[first]], best = None,
                               stopped = True\<rparr>)
               else Some (Inl TypeError)
           | furthest # rest \<Rightarrow>
               fi_loop_old stop 0 [first, furthest] rest [[first, furthest]]))"

section \<open>The state of the component and its handlers\<close>

text \<open>
  The state variables of \<^verbatim>\<open>TspVisualizer\<close> that the handlers below read or write;
  \<open>algorithmRef\<close> is \<open>None\<close> for \<^verbatim>\<open>null\<close> and \<open>Some b\<close> for \<^verbatim>\<open>{ stopped: b }\<close>, \<open>console\<close> collects
  the lines written by \<^verbatim>\<open>console.log\<close>.
\<close>

record metrics =
  possiblePaths :: real
  elapsedTime :: real
  currentDistance :: real
  minDistance :: num

record app_state =
  vertices :: nat
  algorithm :: string
  isRunning :: bool
  points :: "point list"
  currentPath :: "point list"
  bestPath :: "point list"
  metrics :: metrics
  algorithmRef :: "bool option"
  console :: "string list"

text \<open>
  \<open>newPoints\<close> is the array that the \<^verbatim>\<open>while\<close> loop of the generator has filled with random
  grid points: \<^verbatim>\<open>vertices\<close> points, no two at the same position.
\<close>

definition randomizeVerticesCallback :: "point list \<Rightarrow> app_state \<Rightarrow> app_state" where
  "randomizeVerticesCallback newPoints st =
     st\<lparr>points := newPoints, currentPath := [], bestPath := [],
        metrics := \<lparr>possiblePaths = factorial (vertices st), elapsedTime = 0,
                    currentDistance = 0, minDistance = None\<rparr>\<rparr>"

definition clearVertices :: "app_state \<Rightarrow> app_state" where
  "clearVertices st =
     st\<lparr>points := [], currentPath := [], bestPath := [],
        metrics := \<lparr>possiblePaths = 0, elapsedTime = 0, currentDistance = 0,
                    minDistance = None\<rparr>\<rparr>"

definition resetVisualization :: "app_state \<Rightarrow> app_state" where
  "resetVisualization st =
     st\<lparr>algorithmRef := map_option (\<lambda>_. True) (algorithmRef st),
        isRunning := False, currentPath := [], bestPath := [],
        metrics := (metrics st)\<lparr>elapsedTime := 0, currentDistance := 0, minDistance := None\<rparr>\<rparr>"

text \<open>
  The \<^verbatim>\<open>switch\<close> of \<^verbatim>\<open>startAlgorithm\<close>. A started strategy is an \<^verbatim>\<open>async\<close> function: what it
  does is the value \<open>Launched\<close> carries, \<open>None\<close> when it never returns, \<open>Some (Inl e)\<close> when it
  throws \<open>e\<close> (its promise is rejected; nothing catches it).
\<close>

datatype launch = Launched "(js_error + run) option" | NotImplemented

definition dispatch :: "string \<Rightarrow> nat \<Rightarrow> token \<Rightarrow> point list \<Rightarrow> launch" where
  "dispatch name r stop ps =
     (if name = ''nearest-neighbor'' then Launched (Some (nearestNeighbor r stop ps))
      else if name = ''arbitrary-insertion'' then Launched (Some (arbitraryInsertion r stop ps))
      else if name = ''nearest-insertion'' then Launched (nearestInsertion r stop ps)
      else if name = ''furthest-insertion'' then Launched (furthestInsertion stop ps)
      else if name = ''convex-hull'' then Launched (map_option Inr (convexHull stop ps))
      else NotImplemented)"

text \<open>
  \<^verbatim>\<open>startAlgorithm\<close> itself: the state when it returns, and what it has started. It has no
  \<^verbatim>\<open>throw\<close>, and an error inside a strategy rejects the promise of that \<^verbatim>\<open>async\<close> function
  instead of reaching the caller, so \<^verbatim>\<open>startAlgorithm\<close> always returns normally (\<open>Inr\<close>).
\<close>

definition startAlgorithm :: "nat \<Rightarrow> token \<Rightarrow> app_state \<Rightarrow> js_error + app_state \<times> launch" where
  "startAlgorithm r stop st =
     (let st' = st\<lparr>isRunning := True, currentPath := [], bestPath := [],
                   algorithmRef := Some False\<rparr>
      in case dispatch (algorithm st) r stop (points st) of
           Launched out \<Rightarrow> Inr (st', Launched out)
         | NotImplemented \<Rightarrow>
             Inr (st'\<lparr>console := console st' @ [''Algorithm not implemented''],
                      isRunning := False\<rparr>, NotImplemented))"

text \<open>The names that the \<^verbatim>\<open>switch\<close> knows.\<close>

definition strategies :: "string list" where
  "strategies = [''nearest-neighbor'', ''arbitrary-insertion'', ''nearest-insertion'',
                 ''furthest-insertion'', ''convex-hull'']"

text \<open>
  \<open>pauses j\<close> are the buttons pressed while a run sleeps in its \<open>j\<close>-th \<^verbatim>\<open>await\<close>, counting
  from \<open>0\<close>. Furthest insertion and the hull strategy sleep once before their loop, the
  other strategies evaluate the loop condition at once; every round of a loop ends with
  one \<^verbatim>\<open>await\<close>. \<open>observed name pauses\<close> is the flag as the run of strategy \<open>name\<close> reads it.
\<close>

definition awaitsBeforeLoop :: "string \<Rightarrow> nat" where
  "awaitsBeforeLoop name =
     (if name = ''furthest-insertion'' \<or> name = ''convex-hull'' then 1 else 0)"

definition observed :: "string \<Rightarrow> (nat \<Rightarrow> button list) \<Rightarrow> token" where
  "observed name pauses k = flagAfter (concat (map pauses [0..<k + awaitsBeforeLoop name]))"

text \<open>
  What a step shows of the path: nearest neighbour and furthest insertion call
  \<^verbatim>\<open>setCurrentPath([...path])\<close>, the other strategies \<^verbatim>\<open>setCurrentPath([...path, path[0]])\<close>.
\<close>

definition shown :: "string \<Rightarrow> point list \<Rightarrow> step" where
  "shown name path =
     (if name = ''nearest-neighbor'' \<or> name = ''furthest-insertion'' then path
      else closing path)"

text \<open>The final tour that a started strategy publishes, if it publishes one.\<close>

definition finalTour :: "launch \<Rightarrow> point list option" where
  "finalTour l =
     (case l of
        Launched (Some (Inr res)) \<Rightarrow> map_option fst (best res)
      | _ \<Rightarrow> None)"

section \<open>Sample inputs\<close>

definition pt :: "real \<Rightarrow> real \<Rightarrow> point" where
  "pt a b = \<lparr>px = a, py = b\<rparr>"

text \<open>The state of the component when it is mounted (the arguments of \<^verbatim>\<open>useState\<close>).\<close>

definition initialState :: app_state where
  "initialState =
     \<lparr>vertices = 20, algorithm = ''nearest-neighbor'', isRunning = False, points = [],
      currentPath = [], bestPath = [],
      metrics = \<lparr>possiblePaths = 0, elapsedTime = 0, currentDistance = 0, minDistance = None\<rparr>,
      algorithmRef = None, console = []\<rparr>"

text \<open>Five points of the grid of the generator (multiples of 20 and of 15).\<close>

definition fivePoints :: "point list" where
  "fivePoints = [pt 20 15, pt 40 15, pt 40 45, pt 20 45, pt 60 30]"

section \<open>Notions for stating what the strategies do\<close>

text \<open>
  What a construction loop returns when it is entered at its \<open>k\<close>-th evaluation of the
  loop condition with \<open>path\<close>, \<open>rem\<close> and the steps \<open>sts\<close>: it runs \<open>n\<close> rounds, as many as
  the flag stays unset and points remain; every round moves one point and emits one step.
  \<open>pushes\<close> tells whether the function pushes the closing point onto \<^verbatim>\<open>path\<close> itself or
  builds a separate \<^verbatim>\<open>finalPath\<close>; \<open>emit\<close> is what a step shows of the path.
\<close>

definition loop_post ::
  "bool \<Rightarrow> (point list \<Rightarrow> point list) \<Rightarrow> token \<Rightarrow> nat \<Rightarrow> point list \<Rightarrow> point list
     \<Rightarrow> step list \<Rightarrow> run \<Rightarrow> bool" where
  "loop_post pushes emit stop k path rem sts res \<longleftrightarrow>
     (\<exists>n t new.
        length (remaining res) + n = length rem \<and>
        (\<forall>j<n. \<not> stop (k + j)) \<and>
        stopped res = stop (k + n) \<and>
        (\<not> stop (k + n) \<longrightarrow> remaining res = []) \<and>
        mset t + mset (remaining res) = mset path + mset rem \<and>
        (n = 0 \<longrightarrow> t = path) \<and> t \<noteq> [] \<and>
        tour res = (if stop (k + n) \<or> \<not> pushes then t else closing t) \<and>
        best res = (if stop (k + n) then None else Some (closing t, pathCost (closing t))) \<and>
        steps res = sts @ new \<and> length new = n \<and>
        (new \<noteq> [] \<longrightarrow> last new = emit t))"

text \<open>The scan is either untouched or holds a remaining point and a position inside the path.\<close>

definition scan_ok :: "point list \<Rightarrow> point set \<Rightarrow> point option \<times> num \<times> nat \<Rightarrow> bool" where
  "scan_ok path S acc \<longleftrightarrow>
     acc = (None, None, 0) \<or>
     (\<exists>p d pos. acc = (Some p, Some d, pos) \<and> p \<in> S \<and> 0 < pos \<and> pos \<le> length path)"

text \<open>
  \<open>first_min c xs j\<close>: position \<open>j\<close> of \<open>xs\<close> holds a least value of \<open>c\<close>, and every earlier
  position holds a strictly greater one. This is what a left-to-right scan with the test
  \<^verbatim>\<open>cost < bestCost\<close> selects.
\<close>

definition first_min :: "('a \<Rightarrow> real) \<Rightarrow> 'a list \<Rightarrow> nat \<Rightarrow> bool" where
  "first_min c xs j \<longleftrightarrow>
     j < length xs \<and> (\<forall>i<length xs. c (xs ! j) \<le> c (xs ! i)) \<and> (\<forall>i<j. c (xs ! j) < c (xs ! i))"

text \<open>
  \<open>first_max c xs j\<close>: position \<open>j\<close> holds a greatest value of \<open>c\<close> and every earlier position
  a strictly smaller one: what a scan with the test \<^verbatim>\<open>minDistanceToPath > selectedDistance\<close>
  selects.
\<close>

definition first_max :: "('a \<Rightarrow> real) \<Rightarrow> 'a list \<Rightarrow> nat \<Rightarrow> bool" where
  "first_max c xs j \<longleftrightarrow>
     j < length xs \<and> (\<forall>i<length xs. c (xs ! i) \<le> c (xs ! j)) \<and> (\<forall>i<j. c (xs ! i) < c (xs ! j))"

text \<open>The least distance from a point to the path, for a path that is not empty.\<close>

definition gap :: "point list \<Rightarrow> point \<Rightarrow> real" where
  "gap path freePoint = Min (distance freePoint ` set path)"

text \<open>
  The hull scan is run on the points in lexicographic order and on the reverse of that
  order. \<open>before up a b\<close>: \<open>a\<close> comes strictly before \<open>b\<close> in the direction of the scan.
\<close>

definition lexlt :: "point \<Rightarrow> point \<Rightarrow> bool" where
  "lexlt a b \<longleftrightarrow> px a < px b \<or> (px a = px b \<and> py a < py b)"

definition before :: "bool \<Rightarrow> point \<Rightarrow> point \<Rightarrow> bool" where
  "before up a b = (if up then lexlt a b else lexlt b a)"

text \<open>
  The stack of a scan that started at \<open>first\<close>: \<open>first\<close> is at the bottom, the points go
  back in scan order from the top, and seen from \<open>first\<close> every point above another one lies
  to its left.
\<close>

definition scan_inv :: "bool \<Rightarrow> point \<Rightarrow> point list \<Rightarrow> bool" where
  "scan_inv up first st \<longleftrightarrow>
     st \<noteq> [] \<and> last st = first \<and> sorted_wrt (\<lambda>q p. before up p q) st \<and>
     sorted_wrt (\<lambda>q p. 0 < cross first p q) (butlast st)"

text \<open>The start of furthest insertion: the first point, and the remaining ones by falling distance.\<close>

definition fi_sorted :: "point list \<Rightarrow> point list" where
  "fi_sorted ps = sort_key (\<lambda>p. - distance (hd ps) p) (tl ps)"

text \<open>
  The state of a construction loop: \<^verbatim>\<open>path\<close> and \<^verbatim>\<open>remainingPoints\<close>. \<open>moves_one s s'\<close>: from
  \<open>s\<close> to \<open>s'\<close> exactly one point leaves the remaining points and enters the path, at some
  position \<open>i\<close>; the points already on the path keep their order. \<open>moves_inside\<close>: the same,
  and the point does not become the first of the path.
\<close>

type_synonym state = "point list \<times> point list"

definition moves_one :: "state \<Rightarrow> state \<Rightarrow> bool" where
  "moves_one s s' \<longleftrightarrow>
     (\<exists>q i. q \<in> set (snd s) \<and> i \<le> length (fst s) \<and>
        fst s' = take i (fst s) @ [q] @ drop i (fst s) \<and>
        mset (snd s') = mset (snd s) - {#q#})"

definition moves_inside :: "state \<Rightarrow> state \<Rightarrow> bool" where
  "moves_inside s s' \<longleftrightarrow>
     (\<exists>q i. q \<in> set (snd s) \<and> 0 < i \<and> i \<le> length (fst s) \<and>
        fst s' = take i (fst s) @ [q] @ drop i (fst s) \<and>
        mset (snd s') = mset (snd s) - {#q#})"

text \<open>
  \<open>first_least c n b\<close>: among the positions \<open>0, \<dots>, n - 1\<close>, position \<open>b\<close> has a least value of
  \<open>c\<close>, and every position before it a strictly greater one.
\<close>

definition first_least :: "(nat \<Rightarrow> real) \<Rightarrow> nat \<Rightarrow> nat \<Rightarrow> bool" where
  "first_least c n b \<longleftrightarrow> b < n \<and> (\<forall>i<n. c b \<le> c i) \<and> (\<forall>i<b. c b < c i)"

text \<open>
  The cost of a sequence of points: the sum of the distances of its consecutive pairs,
  added from the left. A round of arbitrary insertion, as C4 (amended) describes it: the
  first remaining point goes to the first of the \<open>length path + 1\<close> positions at which the
  sequence itself, not closed, has the least cost.
\<close>

definition tourCost :: "point list \<Rightarrow> real" where
  "tourCost ps = foldl fadd 0 (map (\<lambda>(a, b). distance a b) (zip ps (tl ps)))"

definition arbitrary_round :: "state \<Rightarrow> state \<Rightarrow> bool" where
  "arbitrary_round s s' \<longleftrightarrow>
     (\<exists>q rest b. snd s = q # rest \<and>
        first_least (\<lambda>i. tourCost (take i (fst s) @ [q] @ drop i (fst s))) (length (fst s) + 1) b \<and>
        s' = (take b (fst s) @ [q] @ drop b (fst s), rest))"

text \<open>
  The cost of inserting \<open>p\<close> between the neighbours \<open>a\<close> and \<open>b\<close>, and a round of furthest
  insertion as C7 describes it: the first remaining point whose least distance to the
  path is greatest goes between the first pair of cyclic neighbours with the least
  insertion cost.
\<close>

definition insertionCost :: "point \<Rightarrow> point \<Rightarrow> point \<Rightarrow> real" where
  "insertionCost a p b = fsub (fadd (distance a p) (distance p b)) (distance a b)"

definition furthest_round :: "state \<Rightarrow> state \<Rightarrow> bool" where
  "furthest_round s s' \<longleftrightarrow>
     (\<exists>j e. first_max (gap (fst s)) (snd s) j \<and>
        first_least (\<lambda>i. insertionCost (fst s ! i) (snd s ! j) (fst s ! ((i + 1) mod length (fst s))))
          (length (fst s)) e \<and>
        fst s' = take (e + 1) (fst s) @ [snd s ! j] @ drop (e + 1) (fst s) \<and>
        snd s' = remove1 (snd s ! j) (snd s))"

text \<open>
  \<open>loop_trace R pushes emit stop k sts res states\<close>: the construction loop, entered at its
  \<open>k\<close>-th evaluation of the loop condition in the state \<open>hd states\<close> with the steps \<open>sts\<close>
  emitted so far, goes through \<open>states\<close>, one round \<open>R\<close> from each state to the next and one
  step for each state reached, and returns \<open>res\<close> from the last state. The flag is unset
  before every round, and in the last state it is set or no point remains.
\<close>

definition loop_trace ::
  "(state \<Rightarrow> state \<Rightarrow> bool) \<Rightarrow> bool \<Rightarrow> (point list \<Rightarrow> step) \<Rightarrow> token \<Rightarrow> nat
     \<Rightarrow> step list \<Rightarrow> run \<Rightarrow> state list \<Rightarrow> bool" where
  "loop_trace R pushes emit stop k sts res states \<longleftrightarrow>
     states \<noteq> [] \<and> successively R states \<and>
     (\<forall>j<length states - 1. \<not> stop (k + j)) \<and>
     (snd (last states) = [] \<or> stop (k + (length states - 1))) \<and>
     stopped res = stop (k + (length states - 1)) \<and>
     remaining res = snd (last states) \<and>
     tour res = (if stopped res \<or> \<not> pushes then fst (last states) else closing (fst (last states))) \<and>
     best res = (if stopped res then None
                 else Some (closing (fst (last states)), pathCost (closing (fst (last states))))) \<and>
     steps res = sts @ map (\<lambda>s. emit (fst s)) (tl states)"

section \<open>Rounding to the nearest double\<close>

lemma nearest_even_of_int: "nearest_even (of_int m) = m"
  by (simp add: nearest_even_def)

lemma nearest_even_lower: "\<lfloor>z\<rfloor> \<le> nearest_even z"
  by (simp add: nearest_even_def)

lemma nearest_even_upper: "nearest_even z \<le> \<lceil>z\<rceil>"
  unfolding nearest_even_def ceiling_altdef by auto

lemma nearest_even_error: "\<bar>of_int (nearest_even z) - z\<bar> \<le> 1 / 2"
  unfolding nearest_even_def by (auto simp: abs_le_iff)

lemma nearest_even_near:
  assumes "\<bar>z - of_int m\<bar> < 1 / 2"
  shows "nearest_even z = m"
proof -
  have e: "\<bar>of_int (nearest_even z) - z\<bar> \<le> 1 / 2" by (rule nearest_even_error)
  have "\<bar>real_of_int (nearest_even z) - of_int m\<bar> < 1"
    using e assms by linarith
  then have "\<bar>real_of_int (nearest_even z - m)\<bar> < 1" by simp
  then have "\<bar>nearest_even z - m\<bar> < 1" by linarith
  then show ?thesis by simp
qed

lemma ulp_pos: "0 < ulp x"
  by (simp add: ulp_def)

lemma ulp_bounds:
  assumes "x \<noteq> 0"
  shows "2 ^ 52 * ulp x \<le> \<bar>x\<bar>" and "\<bar>x\<bar> < 2 ^ 53 * ulp x"
proof -
  define e where "e = \<lfloor>log 2 \<bar>x\<bar>\<rfloor>"
  have pos: "0 < \<bar>x\<bar>" using assms by simp
  have "2 powr of_int e \<le> \<bar>x\<bar> \<and> \<bar>x\<bar> < 2 powr (of_int e + 1)"
    using floor_log_eq_powr_iff[OF pos, of 2 e] by (simp add: e_def)
  moreover have "2 ^ 52 * ulp x = 2 powr of_int e"
    unfolding ulp_def e_def[symmetric]
    by (simp add: powr_diff)
  moreover have "2 ^ 53 * ulp x = 2 powr (of_int e + 1)"
    unfolding ulp_def e_def[symmetric]
    by (simp add: powr_diff powr_add)
  ultimately show "2 ^ 52 * ulp x \<le> \<bar>x\<bar>" and "\<bar>x\<bar> < 2 ^ 53 * ulp x" by simp_all
qed

lemma ulp_eval:
  assumes "2 powr of_int e \<le> \<bar>x\<bar>" and "\<bar>x\<bar> < 2 powr (of_int e + 1)"
  shows "ulp x = 2 powr of_int (e - 52)"
proof -
  have "0 < (2::real) powr of_int e" by simp
  with assms(1) have pos: "0 < \<bar>x\<bar>" by linarith
  have "\<lfloor>log 2 \<bar>x\<bar>\<rfloor> = e"
    using floor_log_eq_powr_iff[OF pos, of 2 e] assms by simp
  then show ?thesis by (simp add: ulp_def)
qed

lemma rnd_0: "rnd 0 = 0"
  by (simp add: rnd_def)

lemma rnd_pos:
  assumes "0 < x"
  shows "0 < rnd x"
proof -
  from assms have nz: "x \<noteq> 0" by simp
  have "2 ^ 52 * ulp x \<le> x" using ulp_bounds(1)[OF nz] assms by simp
  then have "2 ^ 52 \<le> x / ulp x" using ulp_pos[of x] by (simp add: pos_le_divide_eq)
  then have "(2 ^ 52 :: int) \<le> \<lfloor>x / ulp x\<rfloor>" by (simp add: le_floor_iff)
  moreover have "0 < (2 ^ 52 :: int)" by simp
  ultimately have "0 < nearest_even (x / ulp x)"
    using nearest_even_lower[of "x / ulp x"] by linarith
  then show ?thesis using nz ulp_pos[of x] by (simp add: rnd_def)
qed

lemma rnd_neg:
  assumes "x < 0"
  shows "rnd x < 0"
proof -
  from assms have nz: "x \<noteq> 0" by simp
  have "2 ^ 52 * ulp x \<le> - x" using ulp_bounds(1)[OF nz] assms by simp
  then have "x \<le> - (2 ^ 52) * ulp x" by simp
  then have "x / ulp x \<le> - (2 ^ 52)" using ulp_pos[of x] by (simp add: pos_divide_le_eq)
  then have "\<lceil>x / ulp x\<rceil> \<le> - (2 ^ 52 :: int)" by (simp add: ceiling_le_iff)
  moreover have "0 < (2 ^ 52 :: int)" by simp
  ultimately have "nearest_even (x / ulp x) < 0"
    using nearest_even_upper[of "x / ulp x"] by linarith
  then show ?thesis using nz ulp_pos[of x] by (simp add: rnd_def mult_neg_pos)
qed

lemma rnd_nonneg: "0 \<le> x \<Longrightarrow> 0 \<le> rnd x"
  using rnd_pos[of x] rnd_0 by (cases "x = 0") (simp_all add: less_eq_real_def)

lemma rnd_eq_0_iff: "rnd x = 0 \<longleftrightarrow> x = 0"
  using rnd_pos[of x] rnd_neg[of x] rnd_0 by (cases "x = 0"; cases "0 < x") auto

lemma rnd_error: "\<bar>rnd x - x\<bar> \<le> \<bar>x\<bar> / 2 ^ 53"
proof (cases "x = 0")
  case True
  then show ?thesis by (simp add: rnd_0)
next
  case False
  have "\<bar>of_int (nearest_even (x / ulp x)) - x / ulp x\<bar> \<le> 1 / 2" by (rule nearest_even_error)
  then have "\<bar>of_int (nearest_even (x / ulp x)) - x / ulp x\<bar> * ulp x \<le> 1 / 2 * ulp x"
    using ulp_pos[of x] by (simp add: mult_right_mono)
  moreover have "\<bar>of_int (nearest_even (x / ulp x)) - x / ulp x\<bar> * ulp x = \<bar>rnd x - x\<bar>"
  proof -
    have "\<bar>of_int (nearest_even (x / ulp x)) - x / ulp x\<bar> * ulp x =
          \<bar>(of_int (nearest_even (x / ulp x)) - x / ulp x) * ulp x\<bar>"
      using ulp_pos[of x] by (simp add: abs_mult)
    also have "(of_int (nearest_even (x / ulp x)) - x / ulp x) * ulp x = rnd x - x"
      using False ulp_pos[of x] by (simp add: rnd_def left_diff_distrib)
    finally show ?thesis .
  qed
  ultimately have "\<bar>rnd x - x\<bar> \<le> ulp x / 2" by simp
  moreover have "ulp x / 2 \<le> \<bar>x\<bar> / 2 ^ 53"
    using ulp_bounds(1)[OF False] by simp
  ultimately show ?thesis by linarith
qed

lemma rnd_eval:
  assumes "2 powr of_int e \<le> \<bar>x\<bar>" and "\<bar>x\<bar> < 2 powr (of_int e + 1)"
  shows "rnd x = of_int (nearest_even (x / 2 powr of_int (e - 52))) * 2 powr of_int (e - 52)"
proof -
  have "0 < (2::real) powr of_int e" by simp
  with assms(1) have "x \<noteq> 0" by auto
  then show ?thesis by (simp add: rnd_def ulp_eval[OF assms])
qed


lemma rnd_up:
  assumes "2 ^ 52 \<le> \<bar>x\<bar> * 2 ^ n" and "\<bar>x\<bar> * 2 ^ n < 2 ^ 53"
  shows "rnd x = of_int (nearest_even (x * 2 ^ n)) / 2 ^ n"
proof -
  have p: "2 powr of_int (52 - int n) = (2::real) ^ 52 / 2 ^ n"
    by (simp add: powr_diff powr_realpow)
  have q: "2 powr (of_int (52 - int n) + 1) = (2::real) ^ 53 / 2 ^ n"
    by (simp add: powr_diff powr_add powr_realpow)
  have r: "2 powr of_int (52 - int n - 52) = 1 / (2::real) ^ n"
    by (simp add: powr_minus powr_realpow inverse_eq_divide)
  have a: "2 powr of_int (52 - int n) \<le> \<bar>x\<bar>"
    unfolding p using assms(1) by (simp add: pos_divide_le_eq)
  have b: "\<bar>x\<bar> < 2 powr (of_int (52 - int n) + 1)"
    unfolding q using assms(2) by (simp add: pos_less_divide_eq)
  show ?thesis
    using rnd_eval[OF a b] unfolding r by simp
qed

lemma rnd_down:
  assumes "2 ^ 52 \<le> \<bar>x\<bar> / 2 ^ n" and "\<bar>x\<bar> / 2 ^ n < 2 ^ 53"
  shows "rnd x = of_int (nearest_even (x / 2 ^ n)) * 2 ^ n"
proof -
  have p: "2 powr of_int (52 + int n) = (2::real) ^ 52 * 2 ^ n"
    by (simp add: powr_add powr_realpow)
  have q: "2 powr (of_int (52 + int n) + 1) = (2::real) ^ 53 * 2 ^ n"
    by (simp add: powr_add powr_realpow)
  have r: "2 powr of_int (52 + int n - 52) = (2::real) ^ n"
    by (simp add: powr_realpow)
  have a: "2 powr of_int (52 + int n) \<le> \<bar>x\<bar>"
    unfolding p using assms(1) by (simp add: pos_le_divide_eq)
  have b: "\<bar>x\<bar> < 2 powr (of_int (52 + int n) + 1)"
    unfolding q using assms(2) by (simp add: pos_divide_less_eq)
  show ?thesis
    using rnd_eval[OF a b] unfolding r by simp
qed

lemma rnd_exact:
  assumes "\<bar>m\<bar> < 2 ^ 53"
  shows "rnd (of_int m * 2 powr of_int e) = of_int m * 2 powr of_int e"
proof (cases "m = 0")
  case True
  then show ?thesis by (simp add: rnd_0)
next
  case False
  define k where "k = \<lfloor>log 2 \<bar>real_of_int m\<bar>\<rfloor>"
  have pos: "0 < \<bar>real_of_int m\<bar>" using False by simp
  have kb: "2 powr of_int k \<le> \<bar>real_of_int m\<bar>" "\<bar>real_of_int m\<bar> < 2 powr (of_int k + 1)"
    using floor_log_eq_powr_iff[OF pos, of 2 k] by (simp_all add: k_def)
  have "1 \<le> \<bar>real_of_int m\<bar>" using False by (simp add: abs_if)
  then have "0 \<le> log 2 \<bar>real_of_int m\<bar>" by simp
  then have k0: "0 \<le> k" by (simp add: k_def)
  have "\<bar>real_of_int m\<bar> < 2 ^ 53"
    using assms by (metis of_int_abs of_int_less_numeral_power_cancel_iff)
  then have "2 powr of_int k < (2::real) powr 53"
    using kb(1) by simp
  then have "real_of_int k < 53" by (simp only: powr_less_cancel_iff) 
  then have k52: "k \<le> 52" by linarith
  define j where "j = nat (52 - k)"
  have j: "int j = 52 - k" using k52 by (simp add: j_def)
  let ?x = "real_of_int m * 2 powr of_int e"
  have absx: "\<bar>?x\<bar> = \<bar>real_of_int m\<bar> * 2 powr of_int e" by (simp add: abs_mult)
  have a: "2 powr of_int (k + e) \<le> \<bar>?x\<bar>"
    unfolding absx using kb(1) by (simp add: powr_add)
  have b: "\<bar>?x\<bar> < 2 powr (of_int (k + e) + 1)"
  proof -
    have "\<bar>real_of_int m\<bar> * 2 powr of_int e < 2 powr (of_int k + 1) * 2 powr of_int e"
      using kb(2) by simp
    also have "\<dots> = 2 powr (of_int (k + e) + 1)" by (simp add: powr_add)
    finally show ?thesis unfolding absx .
  qed
  have u: "(2::real) powr of_int (k + e - 52) = 2 powr of_int e / 2 ^ j"
  proof -
    have "k + e - 52 = e - int j" using j by simp
    then have "real_of_int (k + e - 52) = of_int e - of_int (int j)"
      by (simp only: of_int_diff)
    then have "(2::real) powr of_int (k + e - 52) = 2 powr (of_int e - of_int (int j))"
      by (simp only:)
    also have "\<dots> = 2 powr of_int e / 2 powr of_int (int j)" by (rule powr_diff)
    finally show ?thesis by (simp add: powr_realpow)
  qed
  have q: "?x / (2 powr of_int e / 2 ^ j) = of_int (m * 2 ^ j)" by simp
  have "rnd ?x = of_int (nearest_even (of_int (m * 2 ^ j))) * (2 powr of_int e / 2 ^ j)"
    using rnd_eval[OF a b] unfolding u q .
  moreover have "nearest_even (of_int (m * 2 ^ j)) = m * 2 ^ j" by (rule nearest_even_of_int)
  ultimately show ?thesis by simp
qed

lemma rnd_Ints:
  assumes "x \<in> \<int>" and "\<bar>x\<bar> < 2 ^ 53"
  shows "rnd x = x"
proof -
  from assms(1) obtain m where m: "x = of_int m" by (auto elim: Ints_cases)
  with assms(2) have "\<bar>real_of_int m\<bar> < 2 ^ 53" by simp
  then have "\<bar>m\<bar> < 2 ^ 53" by (metis of_int_abs of_int_less_numeral_power_cancel_iff)
  from rnd_exact[OF this, of 0] m show ?thesis by simp
qed

lemma rnd_sqrt:
  assumes "2 ^ 52 < m" and "m < 2 ^ 53"
    and "(2 * real_of_int m - 1)\<^sup>2 < s * 4 ^ Suc n" and "s * 4 ^ Suc n < (2 * real_of_int m + 1)\<^sup>2"
  shows "rnd (sqrt s) = of_int m / 2 ^ n"
proof -
  define z where "z = sqrt s * 2 ^ n"
  have "0 < m" using assms(1) by (simp add: order.strict_trans[of 0 "2 ^ 52" m])
  then have m0: "0 < real_of_int m" by simp
  have "(4::real) ^ n = (2 * 2) ^ n" by simp
  also have "\<dots> = 2 ^ n * 2 ^ n" by (rule power_mult_distrib)
  finally have four: "(4::real) ^ Suc n = (2 * 2 ^ n)\<^sup>2"
    by (simp add: power2_eq_square)
  have "0 \<le> s"
  proof (rule ccontr)
    assume "\<not> 0 \<le> s"
    then have "s * 4 ^ Suc n \<le> 0" by (simp add: mult_le_0_iff)
    moreover have "0 \<le> (2 * real_of_int m - 1)\<^sup>2" by simp
    ultimately show False using assms(3) by linarith
  qed
  then have sq: "(2 * z)\<^sup>2 = s * 4 ^ Suc n"
    unfolding z_def four by (simp add: power_mult_distrib)
  have z0: "0 \<le> z" using \<open>0 \<le> s\<close> by (simp add: z_def)
  have lo: "2 * real_of_int m - 1 < 2 * z"
  proof (rule ccontr)
    assume "\<not> 2 * real_of_int m - 1 < 2 * z"
    then have "2 * z \<le> 2 * real_of_int m - 1" by simp
    then have "(2 * z)\<^sup>2 \<le> (2 * real_of_int m - 1)\<^sup>2"
      using z0 by (intro power_mono) simp_all
    with assms(3) sq show False by simp
  qed
  have hi: "2 * z < 2 * real_of_int m + 1"
  proof (rule ccontr)
    assume "\<not> 2 * z < 2 * real_of_int m + 1"
    then have "2 * real_of_int m + 1 \<le> 2 * z" by simp
    then have "(2 * real_of_int m + 1)\<^sup>2 \<le> (2 * z)\<^sup>2"
      using m0 by (intro power_mono) simp_all
    with assms(4) sq show False by simp
  qed
  from lo hi have near: "\<bar>z - of_int m\<bar> < 1 / 2" by linarith
  have m1: "2 ^ 52 + 1 \<le> real_of_int m"
  proof -
    from assms(1) have "2 ^ 52 + 1 \<le> m" by simp
    then have "real_of_int (2 ^ 52 + 1) \<le> real_of_int m" by (simp only: of_int_le_iff)
    then show ?thesis by simp
  qed
  have m2: "real_of_int m \<le> 2 ^ 53 - 1"
  proof -
    from assms(2) have "m \<le> 2 ^ 53 - 1" by simp
    then have "real_of_int m \<le> real_of_int (2 ^ 53 - 1)" by (simp only: of_int_le_iff)
    then show ?thesis by simp
  qed
  have abs: "\<bar>sqrt s\<bar> * 2 ^ n = z" using \<open>0 \<le> s\<close> by (simp add: z_def)
  have a: "2 ^ 52 \<le> \<bar>sqrt s\<bar> * 2 ^ n" unfolding abs using lo m1 by linarith
  have b: "\<bar>sqrt s\<bar> * 2 ^ n < 2 ^ 53" unfolding abs using hi m2 by linarith
  show ?thesis
    using rnd_up[OF a b] nearest_even_near[OF near] by (simp add: z_def)
qed

text \<open>
  The sign of a difference of doubles is the sign of the exact difference: a comparator
  \<^verbatim>\<open>(a, b) => f(a) - f(b)\<close> orders by \<open>f\<close>, as \<open>sort_key\<close> does.
\<close>

lemma fsub_sign: "fsub a b < 0 \<longleftrightarrow> a < b" "fsub a b = 0 \<longleftrightarrow> a = b" "0 < fsub a b \<longleftrightarrow> b < a"
proof -
  have neg: "a < b \<Longrightarrow> rnd (a - b) < 0" by (rule rnd_neg) simp
  have pos: "b < a \<Longrightarrow> 0 < rnd (a - b)" by (rule rnd_pos) simp
  have zero: "a = b \<Longrightarrow> rnd (a - b) = 0" by (simp add: rnd_0)
  have t: "(a < b \<and> rnd (a - b) < 0) \<or> (a = b \<and> rnd (a - b) = 0) \<or> (b < a \<and> 0 < rnd (a - b))"
    using neg pos zero by (cases "a < b"; cases "a = b") (auto simp: not_less)
  show "fsub a b < 0 \<longleftrightarrow> a < b" using t by (auto simp: fsub_def)
  show "fsub a b = 0 \<longleftrightarrow> a = b" using t by (auto simp: fsub_def)
  show "0 < fsub a b \<longleftrightarrow> b < a" using t by (auto simp: fsub_def)
qed

section \<open>Shared facts\<close>

lemma mset_insertAt: "mset (insertAt i p path) = add_mset p (mset path)"
proof -
  have "mset (take i path) + mset (drop i path) = mset path"
    by (metis append_take_drop_id mset_append)
  then show ?thesis by (simp add: insertAt_def)
qed

lemma insertAt_not_Nil: "insertAt i p path \<noteq> []"
  by (simp add: insertAt_def)

lemma hd_insertAt: "0 < i \<Longrightarrow> path \<noteq> [] \<Longrightarrow> hd (insertAt i p path) = hd path"
  by (cases path; cases i) (simp_all add: insertAt_def)

lemma closing_not_Nil: "path \<noteq> [] \<Longrightarrow> closing path = path @ [hd path]"
  by (cases path) (simp_all add: closing_def)

lemma loop_post_exit:
  assumes "rem = [] \<or> stop k" and "path \<noteq> []"
    and "remaining res = rem" and "stopped res = stop k" and "steps res = sts"
    and "tour res = (if stop k \<or> \<not> pushes then path else closing path)"
    and "best res = (if stop k then None else Some (closing path, pathCost (closing path)))"
  shows "loop_post pushes emit stop k path rem sts res"
  unfolding loop_post_def
  using assms by (intro exI[of _ 0] exI[of _ path] exI[of _ "[]"]) auto

lemma loop_post_round:
  assumes post: "loop_post pushes emit stop (Suc k) path' rem' (sts @ [st]) res"
    and go: "\<not> stop k"
    and moved: "mset path' + mset rem' = mset path + mset rem" "Suc (length rem') = length rem"
    and shown: "st = emit path'"
  shows "loop_post pushes emit stop k path rem sts res"
proof -
  from post obtain n t new where
    n: "length (remaining res) + n = length rem'"
    and quiet: "\<forall>j<n. \<not> stop (Suc k + j)"
    and flag: "stopped res = stop (Suc k + n)"
    and empty: "\<not> stop (Suc k + n) \<longrightarrow> remaining res = []"
    and perm: "mset t + mset (remaining res) = mset path' + mset rem'"
    and zero: "n = 0 \<longrightarrow> t = path'" and ne: "t \<noteq> []"
    and tour: "tour res = (if stop (Suc k + n) \<or> \<not> pushes then t else closing t)"
    and best: "best res = (if stop (Suc k + n) then None else Some (closing t, pathCost (closing t)))"
    and sts: "steps res = (sts @ [st]) @ new" "length new = n"
    and lst: "new \<noteq> [] \<longrightarrow> last new = emit t"
    unfolding loop_post_def by blast
  have quiet': "\<forall>j<Suc n. \<not> stop (k + j)"
  proof (intro allI impI)
    fix j assume "j < Suc n"
    show "\<not> stop (k + j)"
    proof (cases j)
      case 0
      with go show ?thesis by simp
    next
      case (Suc i)
      with \<open>j < Suc n\<close> quiet show ?thesis by simp
    qed
  qed
  have last': "last (st # new) = emit t"
    using lst zero shown sts(2) by (cases new) auto
  show ?thesis
    unfolding loop_post_def
    using n quiet' flag empty perm moved ne tour best sts last'
    by (intro exI[of _ "Suc n"] exI[of _ t] exI[of _ "st # new"]) auto
qed

section \<open>Nearest neighbour: what the loop returns\<close>

lemma hd_tl_sort_key: "rem \<noteq> [] \<Longrightarrow> add_mset (hd (sort_key f rem)) (mset (tl (sort_key f rem))) = mset rem"
proof -
  assume "rem \<noteq> []"
  then have "sort_key f rem \<noteq> []"
    by (metis length_0_conv length_sort)
  then have "add_mset (hd (sort_key f rem)) (mset (tl (sort_key f rem))) = mset (sort_key f rem)"
    by (cases "sort_key f rem") simp_all
  then show ?thesis by simp
qed

lemma nn_loop_post:
  "path \<noteq> [] \<Longrightarrow> hd path = startPoint \<Longrightarrow>
   loop_post True (\<lambda>t. t) stop k path rem sts (nn_loop stop k startPoint path rem sts)"
proof (induction stop k startPoint path rem sts rule: nn_loop.induct)
  case (1 stop k startPoint path rem sts)
  show ?case
  proof (cases "rem \<noteq> [] \<and> \<not> stop k")
    case True
    define path' where "path' = path @ [hd (sort_key (\<lambda>p. distance (last path) p) rem)]"
    define rem' where "rem' = tl (sort_key (\<lambda>p. distance (last path) p) rem)"
    have eq: "nn_loop stop k startPoint path rem sts =
        nn_loop stop (Suc k) startPoint path' rem' (sts @ [path'])"
      using True by (subst nn_loop.simps) (simp add: path'_def rem'_def Let_def)
    have ne: "path' \<noteq> []" "hd path' = startPoint"
      using "1.prems" by (simp_all add: path'_def)
    have post: "loop_post True (\<lambda>t. t) stop (Suc k) path' rem' (sts @ [path'])
        (nn_loop stop (Suc k) startPoint path' rem' (sts @ [path']))"
      using "1.IH"[OF True refl refl refl] ne unfolding path'_def rem'_def by blast
    have moved: "mset path' + mset rem' = mset path + mset rem"
      using True hd_tl_sort_key[of rem "\<lambda>p. distance (last path) p"]
      by (simp add: path'_def rem'_def)
    have less: "Suc (length rem') = length rem"
      using True by (simp add: rem'_def)
    show ?thesis
      unfolding eq using True by (intro loop_post_round[OF post _ moved less]) simp_all
  next
    case False
    then have eq: "nn_loop stop k startPoint path rem sts = nn_finish (stop k) startPoint path rem sts"
      by (subst nn_loop.simps) auto
    show ?thesis
      unfolding eq using False "1.prems"
      by (intro loop_post_exit) (auto simp: nn_finish_def Let_def closing_not_Nil)
  qed
qed

section \<open>Arbitrary insertion: what the loop returns\<close>

lemma ai_loop_post:
  "path \<noteq> [] \<Longrightarrow> loop_post False closing stop k path rem sts (ai_loop stop k path rem sts)"
proof (induction rem arbitrary: k path sts)
  case Nil
  then show ?case
    by (intro loop_post_exit) (simp_all add: ai_finish_def Let_def)
next
  case (Cons nextPoint rem)
  show ?case
  proof (cases "stop k")
    case True
    with Cons.prems show ?thesis
      by (intro loop_post_exit) (simp_all add: ai_finish_def)
  next
    case False
    obtain bestPosition bestCost where scan: "ai_scan path nextPoint = (bestPosition, bestCost)"
      by (cases "ai_scan path nextPoint")
    define path' where "path' = insertAt bestPosition nextPoint path"
    have eq: "ai_loop stop k path (nextPoint # rem) sts =
        ai_loop stop (Suc k) path' rem (sts @ [closing path'])"
      using False scan by (simp add: path'_def Let_def)
    have post: "loop_post False closing stop (Suc k) path' rem (sts @ [closing path'])
        (ai_loop stop (Suc k) path' rem (sts @ [closing path']))"
      by (rule Cons.IH) (simp add: path'_def insertAt_not_Nil)
    show ?thesis
      unfolding eq using False
      by (intro loop_post_round[OF post]) (simp_all add: path'_def mset_insertAt)
  qed
qed

section \<open>Nearest insertion: what the scan and the loop return\<close>

lemma ni_try_ok:
  "scan_ok path S acc \<Longrightarrow> point \<in> S \<Longrightarrow> i < length path \<Longrightarrow>
   scan_ok path S (ni_try path point acc i) \<and> fst (ni_try path point acc i) \<noteq> None"
  by (auto simp: scan_ok_def ni_try_def Let_def)

lemma ni_inner_ok:
  "scan_ok path S acc \<Longrightarrow> point \<in> S \<Longrightarrow> set is \<subseteq> {0..<length path} \<Longrightarrow>
   scan_ok path S (foldl (ni_try path point) acc is) \<and>
   (is \<noteq> [] \<or> fst acc \<noteq> None \<longrightarrow> fst (foldl (ni_try path point) acc is) \<noteq> None)"
proof (induction "is" arbitrary: acc)
  case Nil
  then show ?case by simp
next
  case (Cons i "is")
  have step: "scan_ok path S (ni_try path point acc i)" "fst (ni_try path point acc i) \<noteq> None"
    using ni_try_ok[of path S acc point i] Cons.prems by simp_all
  show ?case
    using Cons.IH[OF step(1) Cons.prems(2)] Cons.prems(3) step(2) by simp
qed

lemma ni_outer_ok:
  "scan_ok path S acc \<Longrightarrow> set rem \<subseteq> S \<Longrightarrow> path \<noteq> [] \<Longrightarrow>
   scan_ok path S (foldl (\<lambda>acc point. foldl (ni_try path point) acc [0..<length path]) acc rem) \<and>
   (rem \<noteq> [] \<longrightarrow>
      fst (foldl (\<lambda>acc point. foldl (ni_try path point) acc [0..<length path]) acc rem) \<noteq> None)"
proof (induction rem arbitrary: acc)
  case Nil
  then show ?case by simp
next
  case (Cons point rem)
  let ?acc = "foldl (ni_try path point) acc [0..<length path]"
  have inner: "scan_ok path S ?acc" "fst ?acc \<noteq> None"
    using ni_inner_ok[of path S acc point "[0..<length path]"] Cons.prems by simp_all
  have rest: "scan_ok path S (foldl (\<lambda>acc point. foldl (ni_try path point) acc [0..<length path]) ?acc rem)"
    using Cons.IH[OF inner(1)] Cons.prems by simp
  have keep: "fst (foldl (\<lambda>acc point. foldl (ni_try path point) acc [0..<length path]) ?acc rem) \<noteq> None"
  proof (cases rem)
    case Nil
    with inner show ?thesis by simp
  next
    case (Cons q qs)
    then show ?thesis
      using \<open>scan_ok path S ?acc\<close> Cons.IH[OF inner(1)] Cons.prems by simp
  qed
  show ?case using rest keep by simp
qed

lemma ni_scan_found:
  assumes "path \<noteq> []" and "rem \<noteq> []"
  obtains p d pos where "ni_scan path rem = (Some p, Some d, pos)" and "p \<in> set rem"
    and "0 < pos" and "pos \<le> length path"
proof -
  have "scan_ok path (set rem) (ni_scan path rem) \<and> fst (ni_scan path rem) \<noteq> None"
    unfolding ni_scan_def
    using ni_outer_ok[of path "set rem" "(None, None, 0)" rem] assms
    by (simp add: scan_ok_def)
  then show ?thesis
    using that by (auto simp: scan_ok_def)
qed

section \<open>Nearest insertion and the hull strategy: what the loops return\<close>

lemma filter_neq_remove1: "distinct xs \<Longrightarrow> filter (\<lambda>q. q \<noteq> p) xs = remove1 p xs"
  by (induction xs) (auto simp: remove1_idem)

lemma hd_closing: "hd (closing path) = hd path"
  by (cases path) (simp_all add: closing_def)

lemma ni_loop_post:
  "path \<noteq> [] \<Longrightarrow>
   \<exists>res. ni_loop stop k path rem sts = Some res \<and>
     loop_post True closing stop k path rem sts res \<and> hd (tour res) = hd path"
proof (induction "length rem" arbitrary: k path rem sts)
  case 0
  then have eq: "ni_loop stop k path rem sts = Some (ni_finish (stop k) path rem sts)"
    by (subst ni_loop.simps) simp
  have "loop_post True closing stop k path rem sts (ni_finish (stop k) path rem sts)"
    using 0 by (intro loop_post_exit) (simp_all add: ni_finish_def Let_def)
  moreover have "hd (tour (ni_finish (stop k) path rem sts)) = hd path"
    by (simp add: ni_finish_def Let_def hd_closing)
  ultimately show ?case using eq by simp
next
  case (Suc n)
  show ?case
  proof (cases "stop k")
    case True
    then have eq: "ni_loop stop k path rem sts = Some (ni_finish (stop k) path rem sts)"
      by (subst ni_loop.simps) simp
    have "loop_post True closing stop k path rem sts (ni_finish (stop k) path rem sts)"
      using True Suc.prems by (intro loop_post_exit) (simp_all add: ni_finish_def)
    moreover have "hd (tour (ni_finish (stop k) path rem sts)) = hd path"
      by (simp add: ni_finish_def Let_def hd_closing)
    ultimately show ?thesis using eq by simp
  next
    case False
    from Suc.hyps(2) have ne: "rem \<noteq> []" by auto
    from ni_scan_found[OF Suc.prems ne] obtain p d pos where
      scan: "ni_scan path rem = (Some p, Some d, pos)" and mem: "p \<in> set rem"
      and pos: "0 < pos" .
    define path' where "path' = insertAt pos p path"
    define st where "st = closing path'"
    have eq: "ni_loop stop k path rem sts = ni_loop stop (Suc k) path' (remove1 p rem) (sts @ [st])"
      using False ne scan by (subst ni_loop.simps) (simp add: path'_def st_def Let_def)
    have len: "Suc (length (remove1 p rem)) = length rem"
      using mem ne by (simp add: length_remove1)
    with Suc.hyps(2) have "n = length (remove1 p rem)" by simp
    from Suc.hyps(1)[OF this, of path' "Suc k" "sts @ [st]"]
    obtain res where res: "ni_loop stop (Suc k) path' (remove1 p rem) (sts @ [st]) = Some res"
      and post: "loop_post True closing stop (Suc k) path' (remove1 p rem) (sts @ [st]) res"
      and hd: "hd (tour res) = hd path'"
      by (auto simp: path'_def insertAt_not_Nil)
    have moved: "mset path' + mset (remove1 p rem) = mset path + mset rem"
      using mem by (simp add: path'_def mset_insertAt)
    have "loop_post True closing stop k path rem sts res"
      using False by (intro loop_post_round[OF post _ moved len]) (simp_all add: st_def)
    moreover have "hd path' = hd path"
      using Suc.prems pos by (simp add: path'_def hd_insertAt)
    ultimately show ?thesis using eq res hd by simp
  qed
qed

lemma ch_loop_post:
  "path \<noteq> [] \<Longrightarrow> distinct rem \<Longrightarrow>
   \<exists>res. ch_loop stop k path rem sts = Some res \<and> loop_post False closing stop k path rem sts res"
proof (induction "length rem" arbitrary: k path rem sts)
  case 0
  then have eq: "ch_loop stop k path rem sts = Some (ai_finish (stop k) path rem sts)"
    by (subst ch_loop.simps) simp
  have "loop_post False closing stop k path rem sts (ai_finish (stop k) path rem sts)"
    using 0 by (intro loop_post_exit) (simp_all add: ai_finish_def Let_def)
  with eq show ?case by simp
next
  case (Suc n)
  show ?case
  proof (cases "stop k")
    case True
    then have eq: "ch_loop stop k path rem sts = Some (ai_finish (stop k) path rem sts)"
      by (subst ch_loop.simps) simp
    have "loop_post False closing stop k path rem sts (ai_finish (stop k) path rem sts)"
      using True Suc.prems by (intro loop_post_exit) (simp_all add: ai_finish_def)
    with eq show ?thesis by simp
  next
    case False
    from Suc.hyps(2) have ne: "rem \<noteq> []" by auto
    from ni_scan_found[OF Suc.prems(1) ne] obtain p d pos where
      scan: "ni_scan path rem = (Some p, Some d, pos)" and mem: "p \<in> set rem" .
    define path' where "path' = insertAt pos p path"
    define rem' where "rem' = filter (\<lambda>q. q \<noteq> p) rem"
    define st where "st = closing path'"
    have eq: "ch_loop stop k path rem sts = ch_loop stop (Suc k) path' rem' (sts @ [st])"
      using False ne scan by (subst ch_loop.simps) (simp add: path'_def rem'_def st_def Let_def)
    have rem': "rem' = remove1 p rem"
      using Suc.prems(2) unfolding rem'_def by (rule filter_neq_remove1)
    have len: "Suc (length rem') = length rem"
      using mem ne by (simp add: rem' length_remove1)
    with Suc.hyps(2) have n: "n = length rem'" by simp
    have "distinct rem'" using Suc.prems(2) by (simp add: rem'_def)
    with Suc.hyps(1)[OF n, of path' "Suc k" "sts @ [st]"]
    obtain res where res: "ch_loop stop (Suc k) path' rem' (sts @ [st]) = Some res"
      and post: "loop_post False closing stop (Suc k) path' rem' (sts @ [st]) res"
      by (auto simp: path'_def insertAt_not_Nil)
    have moved: "mset path' + mset rem' = mset path + mset rem"
      using mem by (simp add: path'_def mset_insertAt rem')
    have "loop_post False closing stop k path rem sts res"
      using False by (intro loop_post_round[OF post _ moved len]) (simp_all add: st_def)
    with eq res show ?thesis by simp
  qed
qed

section \<open>Scans that keep the first best candidate\<close>

lemma first_min_single: "first_min c [x] 0"
  by (simp add: first_min_def)

lemma first_min_keep:
  assumes "first_min c xs j" and "\<not> c x < c (xs ! j)"
  shows "first_min c (xs @ [x]) j"
  using assms unfolding first_min_def
  by (auto simp: nth_append less_Suc_eq)

lemma first_min_take:
  assumes "first_min c xs j" and "c x < c (xs ! j)"
  shows "first_min c (xs @ [x]) (length xs)"
  using assms unfolding first_min_def
  by (auto simp: nth_append less_Suc_eq)

subsection \<open>The position scan of arbitrary insertion\<close>

lemma ai_try_pair:
  "ai_try path nextPoint (b, Some c) i =
     (if pathCost (insertAt i nextPoint path) < c
      then (i, Some (pathCost (insertAt i nextPoint path))) else (b, Some c))"
  by (simp add: ai_try_def Let_def)

lemma ai_fold:
  "is \<noteq> [] \<Longrightarrow>
   \<exists>j. first_min (\<lambda>i. pathCost (insertAt i nextPoint path)) is j \<and>
       foldl (ai_try path nextPoint) (0, None) is =
         (is ! j, Some (pathCost (insertAt (is ! j) nextPoint path)))"
proof (induction "is" rule: rev_induct)
  case Nil
  then show ?case by simp
next
  case (snoc i "is")
  let ?c = "\<lambda>i. pathCost (insertAt i nextPoint path)"
  show ?case
  proof (cases "is = []")
    case True
    then show ?thesis
      using first_min_single[of ?c i] by (auto simp: ai_try_def Let_def)
  next
    case False
    with snoc.IH obtain j where j: "first_min ?c is j"
      and acc: "foldl (ai_try path nextPoint) (0, None) is = (is ! j, Some (?c (is ! j)))"
      by blast
    have lt: "j < length is" using j by (simp add: first_min_def)
    show ?thesis
    proof (cases "?c i < ?c (is ! j)")
      case True
      then show ?thesis
        using first_min_take[OF j True] acc
        by (intro exI[of _ "length is"]) (simp add: ai_try_pair)
    next
      case False
      then show ?thesis
        using first_min_keep[OF j False] acc lt
        by (intro exI[of _ j]) (simp add: ai_try_pair nth_append)
    qed
  qed
qed

lemma ai_scan_first_min:
  obtains b where "ai_scan path nextPoint = (b, Some (pathCost (insertAt b nextPoint path)))"
    and "b \<le> length path"
    and "\<forall>i\<le>length path. pathCost (insertAt b nextPoint path) \<le> pathCost (insertAt i nextPoint path)"
    and "\<forall>i<b. pathCost (insertAt b nextPoint path) < pathCost (insertAt i nextPoint path)"
proof -
  let ?c = "\<lambda>i. pathCost (insertAt i nextPoint path)"
  from ai_fold[of "[0..<Suc (length path)]" nextPoint path] obtain j where
    j: "first_min ?c [0..<Suc (length path)] j"
    and acc: "ai_scan path nextPoint = ([0..<Suc (length path)] ! j, Some (?c ([0..<Suc (length path)] ! j)))"
    unfolding ai_scan_def by auto
  from j have lt: "j < Suc (length path)" by (simp add: first_min_def)
  then have nth: "[0..<Suc (length path)] ! j = j"
    by (metis add_0 nth_upt)
  have all: "\<forall>i\<le>length path. ?c j \<le> ?c i"
  proof (intro allI impI)
    fix i assume "i \<le> length path"
    then have i: "i < length [0..<Suc (length path)]" by simp
    then have "[0..<Suc (length path)] ! i = i" by (metis add_0 length_upt nth_upt minus_nat.diff_0)
    with j i nth show "?c j \<le> ?c i" unfolding first_min_def by metis
  qed
  have before: "\<forall>i<j. ?c j < ?c i"
  proof (intro allI impI)
    fix i assume "i < j"
    with lt have "[0..<Suc (length path)] ! i = i" by (metis add_0 nth_upt less_trans)
    with j \<open>i < j\<close> nth show "?c j < ?c i" unfolding first_min_def by metis
  qed
  show ?thesis
    using that[of j] acc nth lt all before by simp
qed

subsection \<open>The position scan of furthest insertion\<close>

lemma fi_try_pair:
  "fi_try path selectedPoint (Some c, b) i =
     (if edgeCost path i selectedPoint < c
      then (Some (edgeCost path i selectedPoint), i + 1) else (Some c, b))"
  by (simp add: fi_try_def Let_def)

lemma fi_fold:
  "is \<noteq> [] \<Longrightarrow>
   \<exists>j. first_min (\<lambda>i. edgeCost path i selectedPoint) is j \<and>
       foldl (fi_try path selectedPoint) (None, 0) is =
         (Some (edgeCost path (is ! j) selectedPoint), is ! j + 1)"
proof (induction "is" rule: rev_induct)
  case Nil
  then show ?case by simp
next
  case (snoc i "is")
  let ?c = "\<lambda>i. edgeCost path i selectedPoint"
  show ?case
  proof (cases "is = []")
    case True
    then show ?thesis
      using first_min_single[of ?c i] by (auto simp: fi_try_def Let_def)
  next
    case False
    with snoc.IH obtain j where j: "first_min ?c is j"
      and acc: "foldl (fi_try path selectedPoint) (None, 0) is = (Some (?c (is ! j)), is ! j + 1)"
      by blast
    have lt: "j < length is" using j by (simp add: first_min_def)
    show ?thesis
    proof (cases "?c i < ?c (is ! j)")
      case True
      then show ?thesis
        using first_min_take[OF j True] acc
        by (intro exI[of _ "length is"]) (simp add: fi_try_pair)
    next
      case False
      then show ?thesis
        using first_min_keep[OF j False] acc lt
        by (intro exI[of _ j]) (simp add: fi_try_pair nth_append)
    qed
  qed
qed

lemma fi_place_first_min:
  assumes "path \<noteq> []"
  obtains e where "fi_place path selectedPoint = (Some (edgeCost path e selectedPoint), e + 1)"
    and "e < length path"
    and "\<forall>i<length path. edgeCost path e selectedPoint \<le> edgeCost path i selectedPoint"
    and "\<forall>i<e. edgeCost path e selectedPoint < edgeCost path i selectedPoint"
proof -
  let ?c = "\<lambda>i. edgeCost path i selectedPoint"
  have "[0..<length path] \<noteq> []" using assms by simp
  from fi_fold[OF this, of path selectedPoint] obtain j where
    j: "first_min ?c [0..<length path] j"
    and acc: "fi_place path selectedPoint = (Some (?c ([0..<length path] ! j)), [0..<length path] ! j + 1)"
    unfolding fi_place_def by auto
  from j have lt: "j < length path" by (simp add: first_min_def)
  then have nth: "[0..<length path] ! j = j" by simp
  have all: "\<forall>i<length path. ?c j \<le> ?c i"
  proof (intro allI impI)
    fix i assume i: "i < length path"
    then have "[0..<length path] ! i = i" by simp
    with j i nth show "?c j \<le> ?c i" unfolding first_min_def by (metis length_upt minus_nat.diff_0)
  qed
  have before: "\<forall>i<j. ?c j < ?c i"
  proof (intro allI impI)
    fix i assume "i < j"
    with lt have "[0..<length path] ! i = i" by simp
    with j \<open>i < j\<close> nth show "?c j < ?c i" unfolding first_min_def by metis
  qed
  show ?thesis
    using that[of j] acc nth lt all before by simp
qed

section \<open>Furthest insertion: the selection\<close>

lemma point_eq_iff: "a = b \<longleftrightarrow> px a = px b \<and> py a = py b" for a b :: point
  by (cases a; cases b) simp

lemma distance_pos: "a \<noteq> b \<Longrightarrow> 0 < distance a b"
proof -
  assume "a \<noteq> b"
  then have "px a - px b \<noteq> 0 \<or> py a - py b \<noteq> 0"
    by (simp add: point_eq_iff)
  then have "fsub (px a) (px b) \<noteq> 0 \<or> fsub (py a) (py b) \<noteq> 0"
    by (simp add: fsub_def rnd_eq_0_iff)
  then have "0 < fmul (fsub (px a) (px b)) (fsub (px a) (px b)) \<or>
             0 < fmul (fsub (py a) (py b)) (fsub (py a) (py b))"
    unfolding fmul_def by (auto intro!: rnd_pos simp: zero_less_mult_iff)
  moreover have "0 \<le> fmul (fsub (px a) (px b)) (fsub (px a) (px b))"
    "0 \<le> fmul (fsub (py a) (py b)) (fsub (py a) (py b))"
    unfolding fmul_def by (auto intro!: rnd_nonneg)
  ultimately have "0 < fmul (fsub (px a) (px b)) (fsub (px a) (px b)) +
                       fmul (fsub (py a) (py b)) (fsub (py a) (py b))"
    by linarith
  then show ?thesis
    unfolding distance_def fsqrt_def fadd_def by (intro rnd_pos) (simp add: rnd_pos)
qed

lemma nearer_fold:
  "foldl (nearer freePoint) (Some v) path = Some (Min (insert v (distance freePoint ` set path)))"
proof (induction path arbitrary: v)
  case Nil
  show ?case by simp
next
  case (Cons pathPoint path)
  have step: "nearer freePoint (Some v) pathPoint = Some (min (distance freePoint pathPoint) v)"
    by (simp add: nearer_def Let_def min_def)
  have "Min (insert (min (distance freePoint pathPoint) v) (distance freePoint ` set path)) =
        Min (insert v (insert (distance freePoint pathPoint) (distance freePoint ` set path)))"
    by (cases "path = []") (simp_all add: min.commute min.left_commute min.assoc)
  then show ?case
    using Cons.IH[of "min (distance freePoint pathPoint) v"] step by simp
qed

lemma minDistanceToPath_Min:
  "path \<noteq> [] \<Longrightarrow> minDistanceToPath freePoint path = Some (Min (distance freePoint ` set path))"
proof (cases path)
  case Nil
  then show "path \<noteq> [] \<Longrightarrow> ?thesis" by simp
next
  case (Cons pathPoint rest)
  have "nearer freePoint None pathPoint = Some (distance freePoint pathPoint)"
    by (simp add: nearer_def)
  then show ?thesis
    using Cons nearer_fold[of freePoint "distance freePoint pathPoint" rest]
    by (simp add: minDistanceToPath_def)
qed

lemma gap_pos: "path \<noteq> [] \<Longrightarrow> freePoint \<notin> set path \<Longrightarrow> 0 < gap path freePoint"
  unfolding gap_def by (subst Min_gr_iff) (auto intro: distance_pos)

lemma first_max_keep:
  assumes "first_max c xs j" and "\<not> c (xs ! j) < c x"
  shows "first_max c (xs @ [x]) j"
  using assms unfolding first_max_def
  by (auto simp: nth_append less_Suc_eq)

lemma first_max_take:
  assumes "first_max c xs j" and "c (xs ! j) < c x"
  shows "first_max c (xs @ [x]) (length xs)"
  using assms unfolding first_max_def
  by (auto simp: nth_append less_Suc_eq)

lemma fi_pick_pair:
  "path \<noteq> [] \<Longrightarrow>
   fi_pick path (Some c, sel) freePoint =
     (if c < gap path freePoint then (Some (gap path freePoint), Some freePoint) else (Some c, sel))"
  by (simp add: fi_pick_def Let_def minDistanceToPath_Min gap_def)

text \<open>
  Either no remaining point lies off the path and nothing is selected, or the first point
  with the greatest gap is.
\<close>

lemma fi_pick_fold:
  assumes "path \<noteq> []"
  shows "(foldl (fi_pick path) (Some 0, None) rem = (Some 0, None) \<and>
            (\<forall>p\<in>set rem. gap path p \<le> 0)) \<or>
         (\<exists>j. first_max (gap path) rem j \<and> 0 < gap path (rem ! j) \<and>
            foldl (fi_pick path) (Some 0, None) rem = (Some (gap path (rem ! j)), Some (rem ! j)))"
proof (induction rem rule: rev_induct)
  case Nil
  show ?case by simp
next
  case (snoc x rem)
  from snoc.IH show ?case
  proof (elim disjE conjE exE)
    assume acc: "foldl (fi_pick path) (Some 0, None) rem = (Some 0, None)"
      and none: "\<forall>p\<in>set rem. gap path p \<le> 0"
    show ?thesis
    proof (cases "0 < gap path x")
      case True
      have "first_max (gap path) (rem @ [x]) (length rem)"
        unfolding first_max_def using none True
        by (auto simp: nth_append less_Suc_eq) (meson nth_mem order.strict_trans1 less_eq_real_def)+
      then show ?thesis
        using acc True assms by (intro disjI2 exI[of _ "length rem"]) (simp add: fi_pick_pair)
    next
      case False
      then show ?thesis
        using acc none assms by (intro disjI1) (simp add: fi_pick_pair)
    qed
  next
    fix j
    assume j: "first_max (gap path) rem j" and pos: "0 < gap path (rem ! j)"
      and acc: "foldl (fi_pick path) (Some 0, None) rem = (Some (gap path (rem ! j)), Some (rem ! j))"
    have lt: "j < length rem" using j by (simp add: first_max_def)
    show ?thesis
    proof (cases "gap path (rem ! j) < gap path x")
      case True
      then show ?thesis
        using first_max_take[OF j True] acc pos assms
        by (intro disjI2 exI[of _ "length rem"]) (simp add: fi_pick_pair)
    next
      case False
      then show ?thesis
        using first_max_keep[OF j False] acc pos lt assms
        by (intro disjI2 exI[of _ j]) (simp add: fi_pick_pair nth_append)
    qed
  qed
qed

lemma fi_select_found:
  assumes "path \<noteq> []" and "rem \<noteq> []" and "set rem \<inter> set path = {}"
  obtains j where "first_max (gap path) rem j"
    and "fi_select path rem = (Some (gap path (rem ! j)), Some (rem ! j))"
proof -
  from assms(2) obtain p where p: "p \<in> set rem" by (cases rem) auto
  with assms have "0 < gap path p" by (intro gap_pos) auto
  with p have "\<not> (\<forall>p\<in>set rem. gap path p \<le> 0)" by force
  with fi_pick_fold[OF assms(1), of rem] show ?thesis
    using that unfolding fi_select_def by blast
qed

section \<open>Furthest insertion: what the loop returns\<close>

lemma set_insertAt: "set (insertAt i p path) = insert p (set path)"
  by (metis mset_insertAt set_mset_add_mset_insert set_mset_mset)

lemma fi_loop_post:
  "path \<noteq> [] \<Longrightarrow> distinct rem \<Longrightarrow> set rem \<inter> set path = {} \<Longrightarrow>
   \<exists>res. fi_loop stop k path rem sts = Some res \<and>
     loop_post True (\<lambda>t. t) stop k path rem sts res \<and> hd (tour res) = hd path"
proof (induction "length rem" arbitrary: k path rem sts)
  case 0
  then have eq: "fi_loop stop k path rem sts = Some (ni_finish (stop k) path rem sts)"
    by (subst fi_loop.simps) simp
  have "loop_post True (\<lambda>t. t) stop k path rem sts (ni_finish (stop k) path rem sts)"
    using 0 by (intro loop_post_exit) (simp_all add: ni_finish_def Let_def)
  moreover have "hd (tour (ni_finish (stop k) path rem sts)) = hd path"
    by (simp add: ni_finish_def Let_def hd_closing)
  ultimately show ?case using eq by simp
next
  case (Suc n)
  show ?case
  proof (cases "stop k")
    case True
    then have eq: "fi_loop stop k path rem sts = Some (ni_finish (stop k) path rem sts)"
      by (subst fi_loop.simps) simp
    have "loop_post True (\<lambda>t. t) stop k path rem sts (ni_finish (stop k) path rem sts)"
      using True Suc.prems by (intro loop_post_exit) (simp_all add: ni_finish_def)
    moreover have "hd (tour (ni_finish (stop k) path rem sts)) = hd path"
      by (simp add: ni_finish_def Let_def hd_closing)
    ultimately show ?thesis using eq by simp
  next
    case False
    from Suc.hyps(2) have ne: "rem \<noteq> []" by auto
    from fi_select_found[OF Suc.prems(1) ne Suc.prems(3)] obtain j where
      j: "first_max (gap path) rem j"
      and sel: "fi_select path rem = (Some (gap path (rem ! j)), Some (rem ! j))" .
    define p where "p = rem ! j"
    have mem: "p \<in> set rem" using j by (simp add: p_def first_max_def)
    from fi_place_first_min[OF Suc.prems(1), of p] obtain e where
      place: "fi_place path p = (Some (edgeCost path e p), e + 1)" .
    define path' where "path' = insertAt (e + 1) p path"
    define rem' where "rem' = filter (\<lambda>q. q \<noteq> p) rem"
    define st where "st = path'"
    have eq: "fi_loop stop k path rem sts = fi_loop stop (Suc k) path' rem' (sts @ [st])"
      using False ne sel place
      by (subst fi_loop.simps) (simp add: path'_def rem'_def st_def Let_def p_def)
    have rem': "rem' = remove1 p rem"
      using Suc.prems(2) unfolding rem'_def by (rule filter_neq_remove1)
    have len: "Suc (length rem') = length rem"
      using mem ne by (simp add: rem' length_remove1)
    with Suc.hyps(2) have n: "n = length rem'" by simp
    have inv: "path' \<noteq> []" "distinct rem'" "set rem' \<inter> set path' = {}"
      using Suc.prems by (auto simp: path'_def rem'_def insertAt_not_Nil set_insertAt)
    from Suc.hyps(1)[OF n inv, of "Suc k" "sts @ [st]"]
    obtain res where res: "fi_loop stop (Suc k) path' rem' (sts @ [st]) = Some res"
      and post: "loop_post True (\<lambda>t. t) stop (Suc k) path' rem' (sts @ [st]) res"
      and hd: "hd (tour res) = hd path'"
      by auto
    have moved: "mset path' + mset rem' = mset path + mset rem"
      using mem by (simp add: path'_def mset_insertAt rem')
    have "loop_post True (\<lambda>t. t) stop k path rem sts res"
      using False by (intro loop_post_round[OF post _ moved len]) (simp_all add: st_def)
    moreover have "hd path' = hd path"
      using Suc.prems(1) by (simp add: path'_def hd_insertAt)
    ultimately show ?thesis using eq res hd by simp
  qed
qed

section \<open>Convex hull: geometry of the scan\<close>

text \<open>
  Vectors \<open>(a, b)\<close>, \<open>(c, d)\<close>, \<open>(e, f)\<close> that all point forward: if the second lies to the left
  of the first and the third to the left of the second, the third lies to the left of
  the first.
\<close>

lemma turn_trans_fwd:
  fixes a b c d e f :: real
  assumes u: "0 < a \<or> (a = 0 \<and> 0 < b)" and v: "0 < c \<or> (c = 0 \<and> 0 < d)"
    and w: "0 < e \<or> (e = 0 \<and> 0 < f)"
    and uv: "0 < a * d - b * c" and vw: "0 < c * f - d * e"
  shows "0 < a * f - b * e"
proof (cases "0 < c")
  case True
  have id: "c * (a * f - b * e) = a * (c * f - d * e) + e * (a * d - b * c)"
    by (simp add: algebra_simps)
  have "0 < a \<or> 0 < e"
  proof (rule ccontr)
    assume "\<not> (0 < a \<or> 0 < e)"
    with u w have "a = 0" "0 < b" by auto
    with uv have "b * c < 0" by simp
    with \<open>0 < b\<close> True show False
      by (simp add: mult_less_0_iff)
  qed
  moreover have "0 \<le> a" "0 \<le> e" using u w by auto
  ultimately have "0 < a * (c * f - d * e) + e * (a * d - b * c)"
    using uv vw
    by (metis add_nonneg_pos add_pos_nonneg less_eq_real_def mult_nonneg_nonneg mult_pos_pos)
  with id have "0 < c * (a * f - b * e)" by simp
  with True show ?thesis by (simp add: zero_less_mult_iff)
next
  case False
  with v have c: "c = 0" "0 < d" by auto
  with vw have "d * e < 0" by simp
  with c have "e < 0" by (simp add: mult_less_0_iff)
  with w show ?thesis by auto
qed

lemma turn_trans:
  fixes a b c d e f :: real
  assumes "(0 < a \<or> (a = 0 \<and> 0 < b)) \<and> (0 < c \<or> (c = 0 \<and> 0 < d)) \<and> (0 < e \<or> (e = 0 \<and> 0 < f)) \<or>
           (a < 0 \<or> (a = 0 \<and> b < 0)) \<and> (c < 0 \<or> (c = 0 \<and> d < 0)) \<and> (e < 0 \<or> (e = 0 \<and> f < 0))"
    and uv: "0 < a * d - b * c" and vw: "0 < c * f - d * e"
  shows "0 < a * f - b * e"
  using assms(1)
proof
  assume "(0 < a \<or> (a = 0 \<and> 0 < b)) \<and> (0 < c \<or> (c = 0 \<and> 0 < d)) \<and> (0 < e \<or> (e = 0 \<and> 0 < f))"
  then show ?thesis using turn_trans_fwd[of a b c d e f] uv vw by blast
next
  assume "(a < 0 \<or> (a = 0 \<and> b < 0)) \<and> (c < 0 \<or> (c = 0 \<and> d < 0)) \<and> (e < 0 \<or> (e = 0 \<and> f < 0))"
  then have "0 < - a * - f - - b * - e"
    using uv vw by (intro turn_trans_fwd[of "- a" "- b" "- c" "- d" "- e" "- f"]) auto
  then show ?thesis by simp
qed

lemma before_vec:
  "before up a b \<Longrightarrow>
   (if up then 0 < px b - px a \<or> (px b - px a = 0 \<and> 0 < py b - py a)
    else px b - px a < 0 \<or> (px b - px a = 0 \<and> py b - py a < 0))"
  by (auto simp: before_def lexlt_def)

lemma before_trans: "before up a b \<Longrightarrow> before up b c \<Longrightarrow> before up a c"
  by (auto simp: before_def lexlt_def)

lemma before_irrefl: "\<not> before up a a"
  by (auto simp: before_def lexlt_def)

text \<open>Four points in scan order: two left turns seen from \<open>a\<close> combine.\<close>

lemma cross_chain_top:
  assumes ord: "before up a s" "before up s t" "before up t z"
    and "0 < cross a s t" and "0 < cross s t z"
  shows "0 < cross a t z"
proof -
  let ?a = "px s - px a" and ?b = "py s - py a"
  let ?c = "px t - px s" and ?d = "py t - py s"
  let ?e = "px z - px t" and ?f = "py z - py t"
  have uv: "0 < ?a * ?d - ?b * ?c"
    using assms(4) by (simp add: cross_def algebra_simps)
  have vw: "0 < ?c * ?f - ?d * ?e"
    using assms(5) by (simp add: cross_def algebra_simps)
  have "0 < ?a * ?f - ?b * ?e"
    using before_vec[OF ord(1)] before_vec[OF ord(2)] before_vec[OF ord(3)]
    by (intro turn_trans[OF _ uv vw]) (cases up; simp)
  moreover have "cross a t z = (?a * ?f - ?b * ?e) + (?c * ?f - ?d * ?e)"
    by (simp add: cross_def algebra_simps)
  ultimately show ?thesis using vw by simp
qed

lemma cross_chain_inner:
  assumes ord: "before up a p" "before up p t" "before up t z"
    and "0 < cross a p t" and "0 < cross a t z"
  shows "0 < cross a p z"
proof -
  let ?a = "px p - px a" and ?b = "py p - py a"
  let ?c = "px t - px a" and ?d = "py t - py a"
  let ?e = "px z - px t" and ?f = "py z - py t"
  have uv: "0 < ?a * ?d - ?b * ?c"
    using assms(4) by (simp add: cross_def algebra_simps)
  have vw: "0 < ?c * ?f - ?d * ?e"
    using assms(5) by (simp add: cross_def algebra_simps)
  have "0 < ?a * ?f - ?b * ?e"
    using before_vec[OF ord(1)] before_vec[OF before_trans[OF ord(1) ord(2)]] before_vec[OF ord(3)]
    by (intro turn_trans[OF _ uv vw]) (cases up; simp)
  moreover have "cross a p z = (?a * ?f - ?b * ?e) + (?a * ?d - ?b * ?c)"
    by (simp add: cross_def algebra_simps)
  ultimately show ?thesis using uv by simp
qed

lemma cross_flip: "cross z p a = - cross a p z"
  by (simp add: cross_def algebra_simps)

section \<open>Convex hull: what the scan keeps on its stack\<close>

lemma hullPop_suffix: "\<exists>pre. st = pre @ hullPop st z"
proof (induction st z rule: hullPop.induct)
  case (1 b a rest p)
  show ?case
  proof (cases "cross a b p \<le> 0")
    case True
    with 1 obtain pre where "a # rest = pre @ hullPop (a # rest) p" by blast
    then have "b # a # rest = (b # pre) @ hullPop (b # a # rest) p"
      using True by simp
    then show ?thesis by blast
  next
    case False
    then have "b # a # rest = [] @ hullPop (b # a # rest) p" by simp
    then show ?thesis by blast
  qed
qed (auto)

lemma hullPop_not_Nil: "st \<noteq> [] \<Longrightarrow> hullPop st z \<noteq> []"
  by (induction st z rule: hullPop.induct) auto

lemma hullPop_last: "st \<noteq> [] \<Longrightarrow> last (hullPop st z) = last st"
  by (induction st z rule: hullPop.induct) auto

lemma hullPop_turn: "hullPop st z = b # a # rest \<Longrightarrow> 0 < cross a b z"
  by (induction st z rule: hullPop.induct) (auto split: if_splits)

lemma scan_inv_push:
  assumes inv: "scan_inv up first st" and new: "\<forall>p\<in>set st. before up p z"
  shows "scan_inv up first (hullPush st z)"
proof -
  define st' where "st' = hullPop st z"
  obtain pre where pre: "st = pre @ st'"
    using hullPop_suffix[of st z] by (auto simp: st'_def)
  from inv have ne: "st' \<noteq> []" and last: "last st' = first"
    by (simp_all add: st'_def scan_inv_def hullPop_not_Nil hullPop_last)
  from inv pre have ord: "sorted_wrt (\<lambda>q p. before up p q) st'"
    by (simp add: scan_inv_def sorted_wrt_append)
  from pre ne have "butlast st = pre @ butlast st'"
    by (simp add: butlast_append)
  with inv have star: "sorted_wrt (\<lambda>q p. 0 < cross first p q) (butlast st')"
    by (simp add: scan_inv_def sorted_wrt_append)
  from new pre have newer: "\<forall>p\<in>set st'. before up p z" by simp
  have after_first: "before up first p" if "p \<in> set (butlast st')" for p
  proof -
    have "st' = butlast st' @ [first]"
      using ne last by (metis append_butlast_last_id)
    then have "sorted_wrt (\<lambda>q p. before up p q) (butlast st' @ [first])"
      using ord by simp
    with that show ?thesis by (simp add: sorted_wrt_append)
  qed
  have left: "0 < cross first p z" if p: "p \<in> set (butlast st')" for p
  proof -
    from p obtain b rest where st': "st' = b # rest" and rest: "rest \<noteq> []"
      by (cases st'; cases "tl st'") auto
    then obtain a rest' where rest': "rest = a # rest'" by (cases rest) auto
    from st' rest' have turn: "0 < cross a b z"
      using hullPop_turn[of st z b a rest'] by (simp add: st'_def)
    have b_in: "b \<in> set (butlast st')" using st' rest by simp
    have top: "0 < cross first b z"
    proof (cases "rest' = []")
      case True
      with st' rest' last have "a = first" by simp
      with turn show ?thesis by simp
    next
      case False
      with st' rest' have a_in: "a \<in> set (butlast st')" by simp
      from star st' rest' False have "0 < cross first a b" by simp
      moreover from ord st' rest' have "before up a b" by simp
      moreover from newer st' have "before up b z" by simp
      ultimately show ?thesis
        using cross_chain_top[OF after_first[OF a_in] _ _ _ turn] by blast
    qed
    show ?thesis
    proof (cases "p = b")
      case True
      with top show ?thesis by simp
    next
      case False
      with p st' rest have p_in: "p \<in> set (butlast rest)" by simp
      with star st' rest have "0 < cross first p b" by simp
      moreover from p_in have "p \<in> set rest" by (meson in_set_butlastD)
      with ord st' have "before up p b" by simp
      moreover from newer st' have "before up b z" by simp
      ultimately show ?thesis
        using cross_chain_inner[OF after_first[OF p] _ _ _ top] by blast
    qed
  qed
  have "hullPush st z = z # st'" by (simp add: hullPush_def st'_def)
  moreover have "butlast (z # st') = z # butlast st'" using ne by simp
  ultimately show ?thesis
    unfolding scan_inv_def using ne last ord star newer left by simp
qed

lemma scan_fold:
  "pts \<noteq> [] \<Longrightarrow> sorted_wrt (before up) pts \<Longrightarrow>
   scan_inv up (hd pts) (foldl hullPush [] pts) \<and> hd (foldl hullPush [] pts) = last pts \<and>
   set (foldl hullPush [] pts) \<subseteq> set pts"
proof (induction pts rule: rev_induct)
  case Nil
  then show ?case by simp
next
  case (snoc z pts)
  show ?case
  proof (cases "pts = []")
    case True
    then show ?thesis by (simp add: hullPush_def scan_inv_def)
  next
    case False
    from snoc.prems have sorted: "sorted_wrt (before up) pts" and newer: "\<forall>p\<in>set pts. before up p z"
      by (simp_all add: sorted_wrt_append)
    from snoc.IH[OF False sorted] have inv: "scan_inv up (hd pts) (foldl hullPush [] pts)"
      and sub: "set (foldl hullPush [] pts) \<subseteq> set pts" by simp_all
    from sub newer have "\<forall>p\<in>set (foldl hullPush [] pts). before up p z" by blast
    from scan_inv_push[OF inv this] have "scan_inv up (hd pts) (hullPush (foldl hullPush [] pts) z)" .
    moreover have "set (hullPop (foldl hullPush [] pts) z) \<subseteq> set (foldl hullPush [] pts)"
      using hullPop_suffix[of "foldl hullPush [] pts" z] by (metis set_append sup_ge2)
    moreover have push: "hullPush (foldl hullPush [] pts) z = z # hullPop (foldl hullPush [] pts) z"
      by (simp add: hullPush_def)
    ultimately show ?thesis
      using False sub by (auto simp: push)
  qed
qed

section \<open>Convex hull: the hull has no point twice\<close>

lemma sortedPoints_set: "set (sortedPoints ps) = set ps"
  by (simp add: sortedPoints_def)

lemma sortedPoints_length: "length (sortedPoints ps) = length ps"
  by (simp add: sortedPoints_def)

lemma sortedPoints_distinct: "distinct ps \<Longrightarrow> distinct (sortedPoints ps)"
  by (simp add: sortedPoints_def)

lemma sortedPoints_lex: "distinct ps \<Longrightarrow> sorted_wrt lexlt (sortedPoints ps)"
proof -
  assume d: "distinct ps"
  let ?key = "\<lambda>p::point. (px p, py p)"
  have "inj ?key"
  proof (rule injI)
    fix a b :: point
    assume "?key a = ?key b"
    then have "px a = px b \<and> py a = py b" by simp
    then show "a = b" by (simp add: point_eq_iff)
  qed
  then have "distinct (map ?key (sortedPoints ps))"
    using d by (simp add: distinct_map sortedPoints_def inj_on_def inj_def)
  moreover have "sorted (map ?key (sortedPoints ps))"
    by (simp add: sortedPoints_def)
  ultimately have "sorted_wrt (<) (map ?key (sortedPoints ps))"
    by (simp add: strict_sorted_iff)
  then have "sorted_wrt (\<lambda>a b. ?key a < ?key b) (sortedPoints ps)"
    by (simp add: sorted_wrt_map)
  moreover have "?key a < ?key b \<longleftrightarrow> lexlt a b" for a b
    by (auto simp: lexlt_def less_prod_def)
  ultimately show ?thesis by simp
qed

lemma scan_inv_distinct: "scan_inv up first st \<Longrightarrow> distinct st"
proof -
  assume "scan_inv up first st"
  then have "sorted_wrt (\<lambda>q p. before up p q) st" by (simp add: scan_inv_def)
  then show ?thesis
    by (induction st) (auto simp: before_irrefl)
qed

lemma scan_inv_inner:
  assumes "scan_inv up first st" and "x \<in> set (tl st)" and "x \<noteq> first"
  shows "0 < cross first x (hd st)"
proof -
  from assms(1) have ne: "st \<noteq> []" and last: "last st = first"
    and star: "sorted_wrt (\<lambda>q p. 0 < cross first p q) (butlast st)"
    by (simp_all add: scan_inv_def)
  from assms(2) have "tl st \<noteq> []" by auto
  with ne obtain top rest where st: "st = top # rest" and rest: "rest \<noteq> []"
    by (cases st) auto
  from st rest last have "last rest = first" by simp
  with rest have "butlast rest @ [first] = rest"
    using append_butlast_last_id[of rest] by simp
  then have "set rest = insert first (set (butlast rest))"
    by (metis list.simps(15) rotate1.simps(2) set_rotate1)
  with assms(2,3) st have "x \<in> set (butlast rest)"
    by simp
  with star st rest show ?thesis by simp
qed

lemma hullPoints_rev:
  "hullPoints ps =
     rev (tl (foldl hullPush [] (sortedPoints ps))) @
     rev (tl (foldl hullPush [] (rev (sortedPoints ps))))"
  by (simp add: hullPoints_def halfHull_def Let_def butlast_rev)

lemma hullPoints_subset: "set (hullPoints ps) \<subseteq> set ps"
proof (cases "ps = []")
  case True
  then show ?thesis by (simp add: hullPoints_rev sortedPoints_def)
next
  case False
  have "set (foldl hullPush [] pts) \<subseteq> set pts" for pts
  proof (induction pts rule: rev_induct)
    case Nil
    show ?case by simp
  next
    case (snoc z pts)
    have "set (hullPop (foldl hullPush [] pts) z) \<subseteq> set (foldl hullPush [] pts)"
      using hullPop_suffix[of "foldl hullPush [] pts" z] by (metis set_append sup_ge2)
    moreover have "hullPush (foldl hullPush [] pts) z = z # hullPop (foldl hullPush [] pts) z"
      by (simp add: hullPush_def)
    ultimately show ?case using snoc by auto
  qed
  then have sub: "set (tl (foldl hullPush [] pts)) \<subseteq> set pts" for pts
    by (metis list.sel(2) list.set_sel(2) subset_iff)
  from sub[of "sortedPoints ps"] sub[of "rev (sortedPoints ps)"]
  show ?thesis by (simp add: hullPoints_rev sortedPoints_set)
qed

lemma hullPoints_distinct:
  assumes "distinct ps"
  shows "distinct (hullPoints ps)"
proof (cases "ps = []")
  case True
  then show ?thesis by (simp add: hullPoints_rev sortedPoints_def)
next
  case False
  let ?S = "sortedPoints ps"
  let ?L = "foldl hullPush [] ?S" and ?U = "foldl hullPush [] (rev ?S)"
  from False have ne: "?S \<noteq> []"
    using sortedPoints_length[of ps] by (metis length_0_conv)
  have up: "sorted_wrt (before True) ?S"
    using sortedPoints_lex[OF assms] by (simp add: before_def[abs_def])
  have "sorted_wrt (\<lambda>a b. lexlt b a) (rev ?S)"
    using sortedPoints_lex[OF assms] by (simp add: sorted_wrt_rev)
  then have down: "sorted_wrt (before False) (rev ?S)"
    by (simp add: before_def[abs_def])
  from scan_fold[OF ne up] have L: "scan_inv True (hd ?S) ?L" "hd ?L = last ?S" by simp_all
  from scan_fold[OF _ down] ne have U: "scan_inv False (last ?S) ?U" "hd ?U = hd ?S"
    by (simp_all add: hd_rev last_rev)
  have dL: "distinct ?L"
    using L(1) by (rule scan_inv_distinct)
  have dU: "distinct ?U"
    using U(1) by (rule scan_inv_distinct)
  have neL: "?L \<noteq> []" and neU: "?U \<noteq> []"
    using L(1) U(1) by (simp_all add: scan_inv_def)
  have disj: "x \<notin> set (tl ?U)" if x: "x \<in> set (tl ?L)" for x
  proof
    assume xu: "x \<in> set (tl ?U)"
    from x dL neL have "x \<noteq> hd ?L"
      by (cases ?L) auto
    with L(2) have x_last: "x \<noteq> last ?S" by simp
    from xu dU neU have "x \<noteq> hd ?U"
      by (cases ?U) auto
    with U(2) have x_first: "x \<noteq> hd ?S" by simp
    from scan_inv_inner[OF L(1) x x_first] L(2) have "0 < cross (hd ?S) x (last ?S)" by simp
    moreover from scan_inv_inner[OF U(1) xu x_last] U(2) have "0 < cross (last ?S) x (hd ?S)" by simp
    ultimately show False by (simp add: cross_flip[of "last ?S" x "hd ?S"])
  qed
  have "distinct (tl ?L)" "distinct (tl ?U)"
    using dL dU by (simp_all add: distinct_tl)
  with disj show ?thesis
    by (auto simp: hullPoints_rev)
qed

lemma hullPoints_not_Nil:
  assumes "distinct ps" and "2 \<le> length ps"
  shows "hullPoints ps \<noteq> []"
proof -
  let ?S = "sortedPoints ps"
  let ?L = "foldl hullPush [] ?S"
  from assms(2) have len: "2 \<le> length ?S"
    by (simp add: sortedPoints_length)
  then have ne: "?S \<noteq> []" by auto
  have up: "sorted_wrt (before True) ?S"
    using sortedPoints_lex[OF assms(1)] by (simp add: before_def[abs_def])
  from scan_fold[OF ne up] have L: "scan_inv True (hd ?S) ?L" "hd ?L = last ?S" by simp_all
  then have "?L \<noteq> []" "last ?L = hd ?S" by (simp_all add: scan_inv_def)
  moreover have "hd ?S \<noteq> last ?S"
  proof -
    from len obtain a b rest where S: "?S = a # b # rest"
      by (cases ?S; cases "tl ?S") auto
    have "distinct ?S" using assms(1) by (rule sortedPoints_distinct)
    with S show ?thesis by auto
  qed
  ultimately have "tl ?L \<noteq> []"
    using L(2) by (cases ?L; cases "tl ?L") auto
  then show ?thesis by (simp add: hullPoints_rev)
qed

section \<open>What follows from the description of a loop\<close>

lemma loop_post_complete:
  assumes "loop_post pushes emit (\<lambda>_. False) k path rem sts res"
  obtains t where "t \<noteq> []" and "mset t = mset path + mset rem" and "remaining res = []"
    and "\<not> stopped res" and "best res = Some (closing t, pathCost (closing t))"
    and "tour res = (if pushes then closing t else t)"
    and "length (steps res) = length sts + length rem"
proof -
  from assms obtain n t new where
    n: "length (remaining res) + n = length rem"
    and flag: "stopped res = False"
    and empty0: "\<not> False \<longrightarrow> remaining res = []"
    and perm: "mset t + mset (remaining res) = mset path + mset rem" and ne: "t \<noteq> []"
    and tour0: "tour res = (if False \<or> \<not> pushes then t else closing t)"
    and best0: "best res = (if False then None else Some (closing t, pathCost (closing t)))"
    and sts: "steps res = sts @ new" "length new = n"
    unfolding loop_post_def by blast
  from empty0 have empty: "remaining res = []" by simp
  from tour0 have tour: "tour res = (if \<not> pushes then t else closing t)" by simp
  from best0 have best: "best res = Some (closing t, pathCost (closing t))" by simp
  show ?thesis
  proof (rule that[of t])
    show "t \<noteq> []" by (rule ne)
    show "mset t = mset path + mset rem" using perm empty by simp
    show "remaining res = []" by (rule empty)
    show "\<not> stopped res" using flag by simp
    show "best res = Some (closing t, pathCost (closing t))" by (rule best)
    show "tour res = (if pushes then closing t else t)" using tour by simp
    show "length (steps res) = length sts + length rem" using sts n empty by simp
  qed
qed

section \<open>The states that a loop goes through\<close>

lemma loop_trace_exit:
  assumes "rem = [] \<or> stop k"
    and "remaining res = rem" and "stopped res = stop k" and "steps res = sts"
    and "tour res = (if stop k \<or> \<not> pushes then path else closing path)"
    and "best res = (if stop k then None else Some (closing path, pathCost (closing path)))"
  shows "loop_trace R pushes emit stop k sts res [(path, rem)]"
  using assms unfolding loop_trace_def by simp

lemma loop_trace_round:
  assumes tr: "loop_trace R pushes emit stop (Suc k) (sts @ [emit path']) res states"
    and hd: "hd states = (path', rem')"
    and go: "\<not> stop k" and round: "R (path, rem) (path', rem')"
  shows "loop_trace R pushes emit stop k sts res ((path, rem) # states)"
proof -
  define n where "n = length states - 1"
  from tr have ne: "states \<noteq> []"
    and succ': "successively R states"
    and quiet': "\<forall>j<n. \<not> stop (Suc k + j)"
    and exit': "snd (last states) = [] \<or> stop (Suc k + n)"
    and flag': "stopped res = stop (Suc k + n)"
    and rem': "remaining res = snd (last states)"
    and tour': "tour res = (if stopped res \<or> \<not> pushes then fst (last states)
                            else closing (fst (last states)))"
    and best': "best res = (if stopped res then None
                 else Some (closing (fst (last states)), pathCost (closing (fst (last states)))))"
    and steps': "steps res = (sts @ [emit path']) @ map (\<lambda>s. emit (fst s)) (tl states)"
    unfolding loop_trace_def n_def by blast+
  from ne obtain s rest where st: "states = s # rest" by (cases states) auto
  with hd have s: "s = (path', rem')" by simp
  have len: "length ((path, rem) # states) - 1 = Suc n"
    using ne by (cases states) (simp_all add: n_def)
  have lst: "last ((path, rem) # states) = last states" using ne by simp
  have quiet: "\<forall>j<Suc n. \<not> stop (k + j)"
  proof (intro allI impI)
    fix j assume j: "j < Suc n"
    show "\<not> stop (k + j)"
    proof (cases j)
      case 0
      with go show ?thesis by simp
    next
      case (Suc i)
      with j quiet' show ?thesis by simp
    qed
  qed
  have succ: "successively R ((path, rem) # states)"
    using succ' round st s by simp
  have steps: "steps res = sts @ map (\<lambda>s. emit (fst s)) (tl ((path, rem) # states))"
    using steps' st s by simp
  have exit: "snd (last states) = [] \<or> stop (k + Suc n)" using exit' by simp
  have flag: "stopped res = stop (k + Suc n)" using flag' by simp
  show ?thesis
    unfolding loop_trace_def len lst
    using succ quiet exit flag rem' tour' best' steps by blast
qed

lemma loop_trace_mono:
  assumes "loop_trace R pushes emit stop k sts res states"
    and "\<And>s s'. R s s' \<Longrightarrow> R' s s'"
  shows "loop_trace R' pushes emit stop k sts res states"
proof -
  from assms(1) have "successively R states" by (simp add: loop_trace_def)
  then have "successively R' states"
    by (rule successively_mono) (rule assms(2))
  with assms(1) show ?thesis by (simp add: loop_trace_def)
qed

lemma moves_inside_moves_one: "moves_inside s s' \<Longrightarrow> moves_one s s'"
  unfolding moves_inside_def moves_one_def by blast

lemma arbitrary_round_moves_one:
  assumes "arbitrary_round s s'"
  shows "moves_one s s'"
proof -
  from assms obtain q rest b where r: "snd s = q # rest"
    and b: "first_least (\<lambda>i. tourCost (take i (fst s) @ [q] @ drop i (fst s))) (length (fst s) + 1) b"
    and s': "s' = (take b (fst s) @ [q] @ drop b (fst s), rest)"
    unfolding arbitrary_round_def by blast
  from b have "b \<le> length (fst s)" by (simp add: first_least_def)
  with r s' show ?thesis
    unfolding moves_one_def by (intro exI[of _ q] exI[of _ b]) simp
qed

lemma furthest_round_moves_inside:
  assumes "furthest_round s s'"
  shows "moves_inside s s'"
proof -
  from assms obtain j e where j: "first_max (gap (fst s)) (snd s) j"
    and e: "first_least (\<lambda>i. insertionCost (fst s ! i) (snd s ! j) (fst s ! ((i + 1) mod length (fst s))))
          (length (fst s)) e"
    and p: "fst s' = take (e + 1) (fst s) @ [snd s ! j] @ drop (e + 1) (fst s)"
    and r: "snd s' = remove1 (snd s ! j) (snd s)"
    unfolding furthest_round_def by blast
  from j have mem: "snd s ! j \<in> set (snd s)" by (simp add: first_max_def)
  from e have "e + 1 \<le> length (fst s)" by (simp add: first_least_def)
  with mem p r show ?thesis
    unfolding moves_inside_def
    by (intro exI[of _ "snd s ! j"] exI[of _ "e + 1"]) simp
qed


section \<open>The states of the five loops\<close>

lemma nn_loop_trace:
  "path \<noteq> [] \<Longrightarrow> hd path = startPoint \<Longrightarrow>
   \<exists>states. hd states = (path, rem) \<and>
     loop_trace moves_one True (\<lambda>t. t) stop k sts (nn_loop stop k startPoint path rem sts) states"
proof (induction stop k startPoint path rem sts rule: nn_loop.induct)
  case (1 stop k startPoint path rem sts)
  show ?case
  proof (cases "rem \<noteq> [] \<and> \<not> stop k")
    case True
    define q where "q = hd (sort_key (\<lambda>p. distance (last path) p) rem)"
    define path' where "path' = path @ [q]"
    define rem' where "rem' = tl (sort_key (\<lambda>p. distance (last path) p) rem)"
    have eq: "nn_loop stop k startPoint path rem sts =
        nn_loop stop (Suc k) startPoint path' rem' (sts @ [path'])"
      using True by (subst nn_loop.simps) (simp add: path'_def rem'_def q_def Let_def)
    have ne: "path' \<noteq> []" "hd path' = startPoint"
      using "1.prems" by (simp_all add: path'_def)
    from "1.IH"[OF True refl refl refl] ne obtain states where
      hd: "hd states = (path', rem')"
      and tr: "loop_trace moves_one True (\<lambda>t. t) stop (Suc k) (sts @ [path'])
          (nn_loop stop (Suc k) startPoint path' rem' (sts @ [path'])) states"
      unfolding path'_def rem'_def q_def by blast
    have split: "add_mset q (mset rem') = mset rem"
      using True hd_tl_sort_key[of rem "\<lambda>p. distance (last path) p"]
      by (simp add: q_def rem'_def)
    then have mem: "q \<in> set rem" by (metis set_mset_mset union_single_eq_member)
    from split have less: "mset rem' = mset rem - {#q#}"
      by (metis add_mset_remove_trivial)
    have round: "moves_one (path, rem) (path', rem')"
      unfolding moves_one_def using mem less
      by (intro exI[of _ q] exI[of _ "length path"]) (simp add: path'_def)
    from True have go: "\<not> stop k" by simp
    from loop_trace_round[OF tr hd go round] show ?thesis
      unfolding eq by (intro exI[of _ "(path, rem) # states"]) simp
  next
    case False
    then have eq: "nn_loop stop k startPoint path rem sts = nn_finish (stop k) startPoint path rem sts"
      by (subst nn_loop.simps) auto
    have "loop_trace moves_one True (\<lambda>t. t) stop k sts (nn_finish (stop k) startPoint path rem sts)
        [(path, rem)]"
      using False "1.prems"
      by (intro loop_trace_exit) (auto simp: nn_finish_def Let_def closing_not_Nil)
    then show ?thesis
      unfolding eq by (intro exI[of _ "[(path, rem)]"]) simp
  qed
qed

lemma costFrom_foldl:
  "costFrom cost ps = foldl fadd cost (map (\<lambda>(a, b). distance a b) (zip ps (tl ps)))"
  by (induction cost ps rule: costFrom.induct) simp_all

lemma pathCost_tourCost: "pathCost ps = tourCost ps"
  by (simp add: pathCost_def tourCost_def costFrom_foldl)

lemma ai_first_least:
  obtains b where "ai_scan path nextPoint = (b, Some (pathCost (insertAt b nextPoint path)))"
    and "first_least (\<lambda>i. tourCost (take i path @ [nextPoint] @ drop i path)) (length path + 1) b"
proof -
  from ai_scan_first_min[of path nextPoint] obtain b where
    scan: "ai_scan path nextPoint = (b, Some (pathCost (insertAt b nextPoint path)))"
    and b: "b \<le> length path"
    and least: "\<forall>i\<le>length path. pathCost (insertAt b nextPoint path) \<le> pathCost (insertAt i nextPoint path)"
    and first: "\<forall>i<b. pathCost (insertAt b nextPoint path) < pathCost (insertAt i nextPoint path)" .
  have "first_least (\<lambda>i. tourCost (take i path @ [nextPoint] @ drop i path)) (length path + 1) b"
    unfolding first_least_def pathCost_tourCost[symmetric]
    using b least first by (simp add: insertAt_def less_Suc_eq_le)
  with scan show ?thesis by (rule that)
qed

lemma ai_loop_trace:
  "\<exists>states. hd states = (path, rem) \<and>
     loop_trace arbitrary_round False closing stop k sts (ai_loop stop k path rem sts) states"
proof (induction rem arbitrary: k path sts)
  case Nil
  have "loop_trace arbitrary_round False closing stop k sts (ai_loop stop k path [] sts) [(path, [])]"
    by (intro loop_trace_exit) (simp_all add: ai_finish_def Let_def)
  then show ?case by (intro exI[of _ "[(path, [])]"]) simp
next
  case (Cons nextPoint rem)
  show ?case
  proof (cases "stop k")
    case True
    have "loop_trace arbitrary_round False closing stop k sts
        (ai_loop stop k path (nextPoint # rem) sts) [(path, nextPoint # rem)]"
      using True by (intro loop_trace_exit) (simp_all add: ai_finish_def)
    then show ?thesis by (intro exI[of _ "[(path, nextPoint # rem)]"]) simp
  next
    case False
    from ai_first_least[of path nextPoint] obtain b where
      scan: "ai_scan path nextPoint = (b, Some (pathCost (insertAt b nextPoint path)))"
      and b: "first_least (\<lambda>i. tourCost (take i path @ [nextPoint] @ drop i path)) (length path + 1) b" .
    define path' where "path' = insertAt b nextPoint path"
    have eq: "ai_loop stop k path (nextPoint # rem) sts =
        ai_loop stop (Suc k) path' rem (sts @ [closing path'])"
      using False scan by (simp add: path'_def Let_def)
    from Cons.IH[of path' "Suc k" "sts @ [closing path']"] obtain states where
      hd: "hd states = (path', rem)"
      and tr: "loop_trace arbitrary_round False closing stop (Suc k) (sts @ [closing path'])
          (ai_loop stop (Suc k) path' rem (sts @ [closing path'])) states" by blast
    have round: "arbitrary_round (path, nextPoint # rem) (path', rem)"
      unfolding arbitrary_round_def using b
      by (intro exI[of _ nextPoint] exI[of _ rem] exI[of _ b]) (simp add: path'_def insertAt_def)
    from loop_trace_round[OF tr hd False round] show ?thesis
      unfolding eq by (intro exI[of _ "(path, nextPoint # rem) # states"]) simp
  qed
qed

lemma ni_loop_trace:
  "path \<noteq> [] \<Longrightarrow>
   \<exists>res states. ni_loop stop k path rem sts = Some res \<and> hd states = (path, rem) \<and>
     loop_trace moves_inside True closing stop k sts res states"
proof (induction "length rem" arbitrary: k path rem sts)
  case 0
  then have eq: "ni_loop stop k path rem sts = Some (ni_finish (stop k) path rem sts)"
    by (subst ni_loop.simps) simp
  have "loop_trace moves_inside True closing stop k sts (ni_finish (stop k) path rem sts) [(path, rem)]"
    using 0 by (intro loop_trace_exit) (simp_all add: ni_finish_def Let_def)
  with eq show ?case by (intro exI[of _ "ni_finish (stop k) path rem sts"] exI[of _ "[(path, rem)]"]) simp
next
  case (Suc n)
  show ?case
  proof (cases "stop k")
    case True
    then have eq: "ni_loop stop k path rem sts = Some (ni_finish (stop k) path rem sts)"
      by (subst ni_loop.simps) simp
    have "loop_trace moves_inside True closing stop k sts (ni_finish (stop k) path rem sts) [(path, rem)]"
      using True by (intro loop_trace_exit) (simp_all add: ni_finish_def)
    with eq show ?thesis
      by (intro exI[of _ "ni_finish (stop k) path rem sts"] exI[of _ "[(path, rem)]"]) simp
  next
    case False
    from Suc.hyps(2) have ne: "rem \<noteq> []" by auto
    from ni_scan_found[OF Suc.prems ne] obtain p d pos where
      scan: "ni_scan path rem = (Some p, Some d, pos)" and mem: "p \<in> set rem"
      and pos: "0 < pos" "pos \<le> length path" .
    define path' where "path' = insertAt pos p path"
    define st where "st = closing path'"
    have eq: "ni_loop stop k path rem sts = ni_loop stop (Suc k) path' (remove1 p rem) (sts @ [st])"
      using False ne scan by (subst ni_loop.simps) (simp add: path'_def st_def Let_def)
    have len: "Suc (length (remove1 p rem)) = length rem"
      using mem ne by (simp add: length_remove1)
    with Suc.hyps(2) have "n = length (remove1 p rem)" by simp
    from Suc.hyps(1)[OF this, of path' "Suc k" "sts @ [st]"]
    obtain res states where res: "ni_loop stop (Suc k) path' (remove1 p rem) (sts @ [st]) = Some res"
      and hd: "hd states = (path', remove1 p rem)"
      and tr: "loop_trace moves_inside True closing stop (Suc k) (sts @ [closing path']) res states"
      by (auto simp: path'_def insertAt_not_Nil st_def)
    have round: "moves_inside (path, rem) (path', remove1 p rem)"
      unfolding moves_inside_def using mem pos
      by (intro exI[of _ p] exI[of _ pos]) (simp add: path'_def insertAt_def)
    from loop_trace_round[OF tr hd False round] eq res show ?thesis
      by (intro exI[of _ res] exI[of _ "(path, rem) # states"]) simp
  qed
qed

lemma ch_loop_trace:
  "path \<noteq> [] \<Longrightarrow> distinct rem \<Longrightarrow>
   \<exists>res states. ch_loop stop k path rem sts = Some res \<and> hd states = (path, rem) \<and>
     loop_trace moves_inside False closing stop k sts res states"
proof (induction "length rem" arbitrary: k path rem sts)
  case 0
  then have eq: "ch_loop stop k path rem sts = Some (ai_finish (stop k) path rem sts)"
    by (subst ch_loop.simps) simp
  have "loop_trace moves_inside False closing stop k sts (ai_finish (stop k) path rem sts) [(path, rem)]"
    using 0 by (intro loop_trace_exit) (simp_all add: ai_finish_def Let_def)
  with eq show ?case by (intro exI[of _ "ai_finish (stop k) path rem sts"] exI[of _ "[(path, rem)]"]) simp
next
  case (Suc n)
  show ?case
  proof (cases "stop k")
    case True
    then have eq: "ch_loop stop k path rem sts = Some (ai_finish (stop k) path rem sts)"
      by (subst ch_loop.simps) simp
    have "loop_trace moves_inside False closing stop k sts (ai_finish (stop k) path rem sts) [(path, rem)]"
      using True by (intro loop_trace_exit) (simp_all add: ai_finish_def)
    with eq show ?thesis
      by (intro exI[of _ "ai_finish (stop k) path rem sts"] exI[of _ "[(path, rem)]"]) simp
  next
    case False
    from Suc.hyps(2) have ne: "rem \<noteq> []" by auto
    from ni_scan_found[OF Suc.prems(1) ne] obtain p d pos where
      scan: "ni_scan path rem = (Some p, Some d, pos)" and mem: "p \<in> set rem"
      and pos: "0 < pos" "pos \<le> length path" .
    define path' where "path' = insertAt pos p path"
    define rem' where "rem' = filter (\<lambda>q. q \<noteq> p) rem"
    define st where "st = closing path'"
    have eq: "ch_loop stop k path rem sts = ch_loop stop (Suc k) path' rem' (sts @ [st])"
      using False ne scan by (subst ch_loop.simps) (simp add: path'_def rem'_def st_def Let_def)
    have rem': "rem' = remove1 p rem"
      using Suc.prems(2) unfolding rem'_def by (rule filter_neq_remove1)
    have len: "Suc (length rem') = length rem"
      using mem ne by (simp add: rem' length_remove1)
    with Suc.hyps(2) have n: "n = length rem'" by simp
    have "distinct rem'" using Suc.prems(2) by (simp add: rem'_def)
    with Suc.hyps(1)[OF n, of path' "Suc k" "sts @ [st]"]
    obtain res states where res: "ch_loop stop (Suc k) path' rem' (sts @ [st]) = Some res"
      and hd: "hd states = (path', rem')"
      and tr: "loop_trace moves_inside False closing stop (Suc k) (sts @ [closing path']) res states"
      by (auto simp: path'_def insertAt_not_Nil st_def)
    have round: "moves_inside (path, rem) (path', rem')"
      unfolding moves_inside_def using mem pos
      by (intro exI[of _ p] exI[of _ pos]) (simp add: path'_def insertAt_def rem')
    from loop_trace_round[OF tr hd False round] eq res show ?thesis
      by (intro exI[of _ res] exI[of _ "(path, rem) # states"]) simp
  qed
qed

lemma edgeCost_insertionCost:
  "edgeCost path i p = insertionCost (path ! i) p (path ! ((i + 1) mod length path))"
  by (simp add: edgeCost_def insertionCost_def)

lemma fi_first_least:
  assumes "path \<noteq> []"
  obtains e where "fi_place path p = (Some (edgeCost path e p), e + 1)"
    and "first_least (\<lambda>i. insertionCost (path ! i) p (path ! ((i + 1) mod length path))) (length path) e"
proof -
  from fi_place_first_min[OF assms, of p] obtain e where
    place: "fi_place path p = (Some (edgeCost path e p), e + 1)"
    and e: "e < length path"
    and least: "\<forall>i<length path. edgeCost path e p \<le> edgeCost path i p"
    and first: "\<forall>i<e. edgeCost path e p < edgeCost path i p" .
  have "first_least (\<lambda>i. insertionCost (path ! i) p (path ! ((i + 1) mod length path))) (length path) e"
    unfolding first_least_def using e least first by (simp add: edgeCost_insertionCost)
  with place show ?thesis by (rule that)
qed

lemma fi_loop_trace:
  "path \<noteq> [] \<Longrightarrow> distinct rem \<Longrightarrow> set rem \<inter> set path = {} \<Longrightarrow>
   \<exists>res states. fi_loop stop k path rem sts = Some res \<and> hd states = (path, rem) \<and>
     loop_trace furthest_round True (\<lambda>t. t) stop k sts res states"
proof (induction "length rem" arbitrary: k path rem sts)
  case 0
  then have eq: "fi_loop stop k path rem sts = Some (ni_finish (stop k) path rem sts)"
    by (subst fi_loop.simps) simp
  have "loop_trace furthest_round True (\<lambda>t. t) stop k sts (ni_finish (stop k) path rem sts) [(path, rem)]"
    using 0 by (intro loop_trace_exit) (simp_all add: ni_finish_def Let_def)
  with eq show ?case by (intro exI[of _ "ni_finish (stop k) path rem sts"] exI[of _ "[(path, rem)]"]) simp
next
  case (Suc n)
  show ?case
  proof (cases "stop k")
    case True
    then have eq: "fi_loop stop k path rem sts = Some (ni_finish (stop k) path rem sts)"
      by (subst fi_loop.simps) simp
    have "loop_trace furthest_round True (\<lambda>t. t) stop k sts (ni_finish (stop k) path rem sts) [(path, rem)]"
      using True by (intro loop_trace_exit) (simp_all add: ni_finish_def)
    with eq show ?thesis
      by (intro exI[of _ "ni_finish (stop k) path rem sts"] exI[of _ "[(path, rem)]"]) simp
  next
    case False
    from Suc.hyps(2) have ne: "rem \<noteq> []" by auto
    from fi_select_found[OF Suc.prems(1) ne Suc.prems(3)] obtain j where
      j: "first_max (gap path) rem j"
      and sel: "fi_select path rem = (Some (gap path (rem ! j)), Some (rem ! j))" .
    define p where "p = rem ! j"
    have mem: "p \<in> set rem" using j by (simp add: p_def first_max_def)
    from fi_first_least[OF Suc.prems(1), of p] obtain e where
      place: "fi_place path p = (Some (edgeCost path e p), e + 1)"
      and e: "first_least (\<lambda>i. insertionCost (path ! i) p (path ! ((i + 1) mod length path))) (length path) e" .
    define path' where "path' = insertAt (e + 1) p path"
    define rem' where "rem' = filter (\<lambda>q. q \<noteq> p) rem"
    have eq: "fi_loop stop k path rem sts = fi_loop stop (Suc k) path' rem' (sts @ [path'])"
      using False ne sel place
      by (subst fi_loop.simps) (simp add: path'_def rem'_def Let_def p_def)
    have rem': "rem' = remove1 p rem"
      using Suc.prems(2) unfolding rem'_def by (rule filter_neq_remove1)
    have len: "Suc (length rem') = length rem"
      using mem ne by (simp add: rem' length_remove1)
    with Suc.hyps(2) have n: "n = length rem'" by simp
    have inv: "path' \<noteq> []" "distinct rem'" "set rem' \<inter> set path' = {}"
      using Suc.prems by (auto simp: path'_def rem'_def insertAt_not_Nil set_insertAt)
    from Suc.hyps(1)[OF n inv, of "Suc k" "sts @ [path']"]
    obtain res states where res: "fi_loop stop (Suc k) path' rem' (sts @ [path']) = Some res"
      and hd: "hd states = (path', rem')"
      and tr: "loop_trace furthest_round True (\<lambda>t. t) stop (Suc k) (sts @ [path']) res states"
      by auto
    have round: "furthest_round (path, rem) (path', rem')"
      unfolding furthest_round_def using j e
      by (intro exI[of _ j] exI[of _ e]) (simp add: path'_def insertAt_def rem' p_def)
    from loop_trace_round[OF tr hd False round] eq res show ?thesis
      by (intro exI[of _ res] exI[of _ "(path, rem) # states"]) simp
  qed
qed


section \<open>What a sequence of rounds keeps\<close>


lemma moves_one_length:
  assumes "moves_one s s'"
  shows "Suc (length (snd s')) = length (snd s)"
proof -
  from assms obtain q where q: "q \<in> set (snd s)" and r: "mset (snd s') = mset (snd s) - {#q#}"
    unfolding moves_one_def by blast
  have "size (mset (snd s) - {#q#}) = size (mset (snd s)) - 1"
    using q by (simp add: size_Diff_singleton)
  moreover have "0 < size (mset (snd s))" using q by (cases "snd s") auto
  ultimately have "Suc (size (mset (snd s'))) = size (mset (snd s))" using r by simp
  then show ?thesis by simp
qed

lemma moves_one_not_Nil: "moves_one s s' \<Longrightarrow> fst s' \<noteq> []"
  unfolding moves_one_def by auto

lemma moves_inside_hd:
  assumes "moves_inside s s'" and "fst s \<noteq> []"
  shows "hd (fst s') = hd (fst s)"
proof -
  from assms(1) obtain q i where i: "0 < i"
    and p: "fst s' = take i (fst s) @ [q] @ drop i (fst s)"
    unfolding moves_inside_def by blast
  from i assms(2) have "take i (fst s) \<noteq> []" by simp
  then have "hd (fst s') = hd (take i (fst s))" using p by simp
  also have "\<dots> = hd (fst s)" using i by (simp add: hd_take)
  finally show ?thesis .
qed


lemma trace_lengths:
  "successively moves_one states \<Longrightarrow> i < length states \<Longrightarrow>
   length (snd (states ! i)) + i = length (snd (hd states))"
proof (induction states arbitrary: i)
  case Nil
  then show ?case by simp
next
  case (Cons a states)
  show ?case
  proof (cases i)
    case 0
    then show ?thesis by simp
  next
    case (Suc m)
    with Cons.prems(2) have m: "m < length states" by simp
    then have ne: "states \<noteq> []" by auto
    with Cons.prems(1) have step: "moves_one a (hd states)" and rest: "successively moves_one states"
      by (simp_all add: successively_Cons)
    from Cons.IH[OF rest m] moves_one_length[OF step] Suc show ?thesis by simp
  qed
qed


lemma trace_hd:
  "successively moves_inside states \<Longrightarrow> states \<noteq> [] \<Longrightarrow> fst (hd states) \<noteq> [] \<Longrightarrow>
   hd (fst (last states)) = hd (fst (hd states))"
proof (induction states)
  case Nil
  then show ?case by simp
next
  case (Cons a states)
  show ?case
  proof (cases "states = []")
    case True
    then show ?thesis by simp
  next
    case False
    with Cons.prems(1) have step: "moves_inside a (hd states)" and rest: "successively moves_inside states"
      by (simp_all add: successively_Cons)
    from Cons.prems(3) have a: "fst a \<noteq> []" by simp
    have "fst (hd states) \<noteq> []"
      using moves_one_not_Nil[OF moves_inside_moves_one[OF step]] .
    from Cons.IH[OF rest False this] moves_inside_hd[OF step a] False show ?thesis by simp
  qed
qed


section \<open>The five strategies: from the point set to the loop\<close>

lemma split_chosen:
  assumes "distinct ps" and "distinct chosen" and "set chosen \<subseteq> set ps"
  shows "mset chosen + mset (filter (\<lambda>p. p \<notin> set chosen) ps) = mset ps"
proof -
  have "set (filter (\<lambda>p. p \<in> set chosen) ps) = set chosen"
    using assms(3) by auto
  moreover have "distinct (filter (\<lambda>p. p \<in> set chosen) ps)"
    using assms(1) by simp
  ultimately have "mset (filter (\<lambda>p. p \<in> set chosen) ps) = mset chosen"
    using assms(2) set_eq_iff_mset_eq_distinct[of "filter (\<lambda>p. p \<in> set chosen) ps" chosen]
    by blast
  moreover have "mset (filter (\<lambda>p. p \<in> set chosen) ps) + mset (filter (\<lambda>p. p \<notin> set chosen) ps) = mset ps"
    by (induction ps) simp_all
  ultimately show ?thesis by simp
qed

lemma length_not_chosen:
  assumes "distinct ps" and "distinct chosen" and "set chosen \<subseteq> set ps"
  shows "length chosen + length (filter (\<lambda>p. p \<notin> set chosen) ps) = length ps"
  using split_chosen[OF assms] by (metis mset_append size_mset length_append)

text \<open>The second point of the two insertion strategies that draw their start at random.\<close>

lemma find_second:
  assumes "distinct ps" and "2 \<le> length ps"
  obtains second where "find (\<lambda>p. p \<noteq> startPoint) ps = Some second"
    and "second \<in> set ps" and "second \<noteq> startPoint"
proof -
  from assms obtain a b rest where ps: "ps = a # b # rest" and "a \<noteq> b"
    by (cases ps; cases "tl ps") auto
  then have "\<exists>p\<in>set ps. p \<noteq> startPoint" by auto
  then have "find (\<lambda>p. p \<noteq> startPoint) ps \<noteq> None"
    unfolding find_None_iff by blast
  then obtain second where f: "find (\<lambda>p. p \<noteq> startPoint) ps = Some second" by auto
  then have "second \<in> set ps" "second \<noteq> startPoint"
    by (auto simp: find_Some_iff)
  with f show ?thesis using that by blast
qed

lemma nearestNeighbor_run:
  assumes "distinct ps" and "r < length ps"
  shows "nearestNeighbor r stop ps =
           Inr (nn_loop stop 0 (ps ! r) [ps ! r] (filter (\<lambda>p. p \<noteq> ps ! r) ps) [])"
    and "loop_post True (\<lambda>t. t) stop 0 [ps ! r] (filter (\<lambda>p. p \<noteq> ps ! r) ps) []
           (nn_loop stop 0 (ps ! r) [ps ! r] (filter (\<lambda>p. p \<noteq> ps ! r) ps) [])"
    and "mset [ps ! r] + mset (filter (\<lambda>p. p \<noteq> ps ! r) ps) = mset ps"
    and "Suc (length (filter (\<lambda>p. p \<noteq> ps ! r) ps)) = length ps"
proof -
  show "nearestNeighbor r stop ps =
           Inr (nn_loop stop 0 (ps ! r) [ps ! r] (filter (\<lambda>p. p \<noteq> ps ! r) ps) [])"
    using assms(2) by (simp add: nearestNeighbor_def Let_def)
  show "loop_post True (\<lambda>t. t) stop 0 [ps ! r] (filter (\<lambda>p. p \<noteq> ps ! r) ps) []
           (nn_loop stop 0 (ps ! r) [ps ! r] (filter (\<lambda>p. p \<noteq> ps ! r) ps) [])"
    by (rule nn_loop_post) simp_all
  have sub: "distinct [ps ! r]" "set [ps ! r] \<subseteq> set ps" using assms(2) by simp_all
  show "mset [ps ! r] + mset (filter (\<lambda>p. p \<noteq> ps ! r) ps) = mset ps"
    using split_chosen[OF assms(1) sub] by simp
  show "Suc (length (filter (\<lambda>p. p \<noteq> ps ! r) ps)) = length ps"
    using length_not_chosen[OF assms(1) sub] by simp
qed

lemma arbitraryInsertion_run:
  assumes "distinct ps" and "2 \<le> length ps" and "r < length ps"
  obtains second where "second \<in> set ps" and "second \<noteq> ps ! r"
    and "arbitraryInsertion r stop ps =
           Inr (ai_loop stop 0 [ps ! r, second] (filter (\<lambda>p. p \<notin> set [ps ! r, second]) ps) [])"
    and "loop_post False closing stop 0 [ps ! r, second] (filter (\<lambda>p. p \<notin> set [ps ! r, second]) ps) []
           (ai_loop stop 0 [ps ! r, second] (filter (\<lambda>p. p \<notin> set [ps ! r, second]) ps) [])"
    and "mset [ps ! r, second] + mset (filter (\<lambda>p. p \<notin> set [ps ! r, second]) ps) = mset ps"
    and "2 + length (filter (\<lambda>p. p \<notin> set [ps ! r, second]) ps) = length ps"
proof -
  from find_second[OF assms(1,2), of "ps ! r"] obtain second where
    f: "find (\<lambda>p. p \<noteq> ps ! r) ps = Some second" and mem: "second \<in> set ps"
    and neq: "second \<noteq> ps ! r" .
  have sub: "distinct [ps ! r, second]" "set [ps ! r, second] \<subseteq> set ps"
    using assms(3) mem neq by auto
  show ?thesis
  proof (rule that[of second])
    show "second \<in> set ps" by (rule mem)
    show "second \<noteq> ps ! r" by (rule neq)
    show "arbitraryInsertion r stop ps =
           Inr (ai_loop stop 0 [ps ! r, second] (filter (\<lambda>p. p \<notin> set [ps ! r, second]) ps) [])"
      using assms(3) f by (simp add: arbitraryInsertion_def Let_def)
    show "loop_post False closing stop 0 [ps ! r, second] (filter (\<lambda>p. p \<notin> set [ps ! r, second]) ps) []
           (ai_loop stop 0 [ps ! r, second] (filter (\<lambda>p. p \<notin> set [ps ! r, second]) ps) [])"
      by (rule ai_loop_post) simp
    show "mset [ps ! r, second] + mset (filter (\<lambda>p. p \<notin> set [ps ! r, second]) ps) = mset ps"
      by (rule split_chosen[OF assms(1) sub])
    show "2 + length (filter (\<lambda>p. p \<notin> set [ps ! r, second]) ps) = length ps"
      using length_not_chosen[OF assms(1) sub] by simp
  qed
qed

lemma nearestInsertion_run:
  assumes "distinct ps" and "2 \<le> length ps" and "r < length ps"
  obtains second res where "second \<in> set ps" and "second \<noteq> ps ! r"
    and "nearestInsertion r stop ps = Some (Inr res)"
    and "loop_post True closing stop 0 [ps ! r, second] (filter (\<lambda>p. p \<notin> set [ps ! r, second]) ps) [] res"
    and "hd (tour res) = ps ! r"
    and "mset [ps ! r, second] + mset (filter (\<lambda>p. p \<notin> set [ps ! r, second]) ps) = mset ps"
    and "2 + length (filter (\<lambda>p. p \<notin> set [ps ! r, second]) ps) = length ps"
proof -
  from find_second[OF assms(1,2), of "ps ! r"] obtain second where
    f: "find (\<lambda>p. p \<noteq> ps ! r) ps = Some second" and mem: "second \<in> set ps"
    and neq: "second \<noteq> ps ! r" .
  have sub: "distinct [ps ! r, second]" "set [ps ! r, second] \<subseteq> set ps"
    using assms(3) mem neq by auto
  let ?rem = "filter (\<lambda>p. p \<notin> set [ps ! r, second]) ps"
  from ni_loop_post[of "[ps ! r, second]" stop 0 ?rem "[]"] obtain res where
    res: "ni_loop stop 0 [ps ! r, second] ?rem [] = Some res"
    and post: "loop_post True closing stop 0 [ps ! r, second] ?rem [] res"
    and hd: "hd (tour res) = hd [ps ! r, second]" by auto
  show ?thesis
  proof (rule that[of second res])
    show "second \<in> set ps" by (rule mem)
    show "second \<noteq> ps ! r" by (rule neq)
    show "nearestInsertion r stop ps = Some (Inr res)"
      using assms(3) f res by (simp add: nearestInsertion_def Let_def)
    show "loop_post True closing stop 0 [ps ! r, second] ?rem [] res" by (rule post)
    show "hd (tour res) = ps ! r" using hd by simp
    show "mset [ps ! r, second] + mset ?rem = mset ps"
      by (rule split_chosen[OF assms(1) sub])
    show "2 + length ?rem = length ps"
      using length_not_chosen[OF assms(1) sub] by simp
  qed
qed

lemma furthestInsertion_run:
  assumes "distinct ps" and "ps \<noteq> []"
  obtains res where "furthestInsertion stop ps = Some (Inr res)"
    and "loop_post True (\<lambda>t. t) stop 0 (hd ps # take 1 (fi_sorted ps)) (drop 1 (fi_sorted ps))
           [hd ps # take 1 (fi_sorted ps)] res"
    and "hd (tour res) = hd ps"
    and "mset (hd ps # take 1 (fi_sorted ps)) + mset (drop 1 (fi_sorted ps)) = mset ps"
proof -
  from assms(2) obtain first others where ps: "ps = first # others" by (cases ps) auto
  let ?sorted = "fi_sorted ps"
  let ?path = "hd ps # take 1 ?sorted" and ?rem = "drop 1 ?sorted"
  have d: "distinct ?sorted" and s: "set ?sorted = set others"
    using assms(1) ps by (simp_all add: fi_sorted_def)
  have "distinct (take 1 ?sorted @ drop 1 ?sorted)" using d by simp
  then have disj: "set (take 1 ?sorted) \<inter> set ?rem = {}" and dr: "distinct ?rem"
    by (simp_all only: distinct_append)
  have "first \<notin> set ?rem"
    using assms(1) ps s by (metis distinct.simps(2) in_set_dropD)
  with disj ps have inv: "set ?rem \<inter> set ?path = {}" by auto
  from fi_loop_post[OF _ dr inv, of stop 0 "[?path]"] obtain res where
    res: "fi_loop stop 0 ?path ?rem [?path] = Some res"
    and post: "loop_post True (\<lambda>t. t) stop 0 ?path ?rem [?path] res"
    and hd: "hd (tour res) = hd ?path" by auto
  have "mset (take 1 ?sorted) + mset (drop 1 ?sorted) = mset ?sorted"
    by (metis append_take_drop_id mset_append)
  then have perm: "mset ?path + mset ?rem = mset ps"
    using ps by (simp add: fi_sorted_def)
  show ?thesis
  proof (rule that[of res])
    show "furthestInsertion stop ps = Some (Inr res)"
      using res ps by (simp add: furthestInsertion_def fi_sorted_def Let_def)
    show "loop_post True (\<lambda>t. t) stop 0 ?path ?rem [?path] res" by (rule post)
    show "hd (tour res) = hd ps" using hd by simp
    show "mset ?path + mset ?rem = mset ps" by (rule perm)
  qed
qed

lemma convexHull_run:
  assumes "distinct ps" and "2 \<le> length ps"
  obtains res where "convexHull stop ps = Some res"
    and "loop_post False closing stop 0 (hullPoints ps)
           (filter (\<lambda>p. p \<notin> set (hullPoints ps)) ps) [closing (hullPoints ps)] res"
    and "mset (hullPoints ps) + mset (filter (\<lambda>p. p \<notin> set (hullPoints ps)) ps) = mset ps"
proof -
  let ?path = "hullPoints ps"
  let ?rem = "filter (\<lambda>p. p \<notin> set ?path) ps"
  have ne: "?path \<noteq> []" using assms by (rule hullPoints_not_Nil)
  have dr: "distinct ?rem" using assms(1) by simp
  from ch_loop_post[OF ne dr, of stop 0 "[closing ?path]"] obtain res where
    res: "ch_loop stop 0 ?path ?rem [closing ?path] = Some res"
    and post: "loop_post False closing stop 0 ?path ?rem [closing ?path] res" by auto
  show ?thesis
  proof (rule that[of res])
    show "convexHull stop ps = Some res"
      using res by (simp add: convexHull_def Let_def)
    show "loop_post False closing stop 0 ?path ?rem [closing ?path] res" by (rule post)
    show "mset ?path + mset ?rem = mset ps"
      using assms(1) hullPoints_distinct[OF assms(1)] hullPoints_subset[of ps]
      by (rule split_chosen)
  qed
qed

section \<open>C1: the final tour\<close>

lemma dispatch_nn: "dispatch ''nearest-neighbor'' r stop ps = Launched (Some (nearestNeighbor r stop ps))"
  by (simp add: dispatch_def)

lemma dispatch_ai: "dispatch ''arbitrary-insertion'' r stop ps = Launched (Some (arbitraryInsertion r stop ps))"
  by (simp add: dispatch_def)

lemma dispatch_ni: "dispatch ''nearest-insertion'' r stop ps = Launched (nearestInsertion r stop ps)"
  by (simp add: dispatch_def)

lemma dispatch_fi: "dispatch ''furthest-insertion'' r stop ps = Launched (furthestInsertion stop ps)"
  by (simp add: dispatch_def)

lemma dispatch_ch: "dispatch ''convex-hull'' r stop ps = Launched (map_option Inr (convexHull stop ps))"
  by (simp add: dispatch_def)

lemma strategies_cases:
  assumes "name \<in> set strategies"
  obtains "name = ''nearest-neighbor''" | "name = ''arbitrary-insertion''"
    | "name = ''nearest-insertion''" | "name = ''furthest-insertion''" | "name = ''convex-hull''"
proof -
  from assms have "name = ''nearest-neighbor'' \<or> name = ''arbitrary-insertion'' \<or>
      name = ''nearest-insertion'' \<or> name = ''furthest-insertion'' \<or> name = ''convex-hull''"
    unfolding strategies_def by (simp only: set_simps insert_iff empty_iff simp_thms)
  then show thesis
  proof (elim disjE)
    assume "name = ''nearest-neighbor''" then show thesis by (rule that(1))
  next
    assume "name = ''arbitrary-insertion''" then show thesis by (rule that(2))
  next
    assume "name = ''nearest-insertion''" then show thesis by (rule that(3))
  next
    assume "name = ''furthest-insertion''" then show thesis by (rule that(4))
  next
    assume "name = ''convex-hull''" then show thesis by (rule that(5))
  qed
qed

lemma closed_tour:
  assumes "t \<noteq> []" and "mset t = mset ps"
  shows "hd (closing t) = last (closing t)" and "mset (butlast (closing t)) = mset ps"
  using assms by (simp_all add: closing_not_Nil)

lemma complete_run:
  assumes post: "loop_post pushes emit (\<lambda>_. False) k path rem sts res"
    and perm: "mset path + mset rem = mset ps"
  shows "\<exists>t c. best res = Some (t, c) \<and> hd t = last t \<and> mset (butlast t) = mset ps"
proof -
  from loop_post_complete[OF post] obtain t where
    t: "t \<noteq> []" "mset t = mset path + mset rem"
    and best: "best res = Some (closing t, pathCost (closing t))" .
  from t perm have "mset t = mset ps" by simp
  with t(1) best closed_tour[of t ps] show ?thesis by auto
qed

text \<open>
  C1. For a set of at least three distinct points and each of the five strategies, a run
  in which the flag is never set returns and publishes a final tour (\<^verbatim>\<open>setBestPath\<close>) whose
  first element is its last and which, without that last element, holds every point of
  the set exactly once.
\<close>

theorem final_tour_closed_and_complete:
  assumes "distinct ps" and "3 \<le> length ps" and "r < length ps" and "name \<in> set strategies"
  shows "\<exists>res t c. dispatch name r (\<lambda>_. False) ps = Launched (Some (Inr res)) \<and>
           best res = Some (t, c) \<and> hd t = last t \<and> mset (butlast t) = mset ps"
proof -
  from assms(2) have two: "2 \<le> length ps" and ne: "ps \<noteq> []" by auto
  from assms(4) show ?thesis
  proof (cases rule: strategies_cases)
    case 1
    note run = nearestNeighbor_run[OF assms(1,3)]
    from complete_run[OF run(2)[of "\<lambda>_. False"] run(3)] run(1)[of "\<lambda>_. False"] 1
    show ?thesis by (simp add: dispatch_nn)
  next
    case 2
    from arbitraryInsertion_run[OF assms(1) two assms(3), of "\<lambda>_. False"] obtain second where
      run: "arbitraryInsertion r (\<lambda>_. False) ps =
           Inr (ai_loop (\<lambda>_. False) 0 [ps ! r, second] (filter (\<lambda>p. p \<notin> set [ps ! r, second]) ps) [])"
      and post: "loop_post False closing (\<lambda>_. False) 0 [ps ! r, second] (filter (\<lambda>p. p \<notin> set [ps ! r, second]) ps) []
           (ai_loop (\<lambda>_. False) 0 [ps ! r, second] (filter (\<lambda>p. p \<notin> set [ps ! r, second]) ps) [])"
      and perm: "mset [ps ! r, second] + mset (filter (\<lambda>p. p \<notin> set [ps ! r, second]) ps) = mset ps" .
    from complete_run[OF post perm] run 2 show ?thesis by (simp add: dispatch_ai)
  next
    case 3
    from nearestInsertion_run[OF assms(1) two assms(3), of "\<lambda>_. False"] obtain second res where
      run: "nearestInsertion r (\<lambda>_. False) ps = Some (Inr res)"
      and post: "loop_post True closing (\<lambda>_. False) 0 [ps ! r, second] (filter (\<lambda>p. p \<notin> set [ps ! r, second]) ps) [] res"
      and perm: "mset [ps ! r, second] + mset (filter (\<lambda>p. p \<notin> set [ps ! r, second]) ps) = mset ps" .
    from complete_run[OF post perm] run 3 show ?thesis by (simp add: dispatch_ni)
  next
    case 4
    from furthestInsertion_run[OF assms(1) ne, of "\<lambda>_. False"] obtain res where
      run: "furthestInsertion (\<lambda>_. False) ps = Some (Inr res)"
      and post: "loop_post True (\<lambda>t. t) (\<lambda>_. False) 0 (hd ps # take 1 (fi_sorted ps)) (drop 1 (fi_sorted ps))
           [hd ps # take 1 (fi_sorted ps)] res"
      and perm: "mset (hd ps # take 1 (fi_sorted ps)) + mset (drop 1 (fi_sorted ps)) = mset ps" .
    from complete_run[OF post perm] run 4 show ?thesis by (simp add: dispatch_fi)
  next
    case 5
    from convexHull_run[OF assms(1) two, of "\<lambda>_. False"] obtain res where
      run: "convexHull (\<lambda>_. False) ps = Some res"
      and post: "loop_post False closing (\<lambda>_. False) 0 (hullPoints ps)
           (filter (\<lambda>p. p \<notin> set (hullPoints ps)) ps) [closing (hullPoints ps)] res"
      and perm: "mset (hullPoints ps) + mset (filter (\<lambda>p. p \<notin> set (hullPoints ps)) ps) = mset ps" .
    from complete_run[OF post perm] run 5 show ?thesis by (simp add: dispatch_ch)
  qed
qed

theorem final_tour_closed_and_complete_witness:
  "distinct fivePoints \<and> 3 \<le> length fivePoints \<and> 2 < length fivePoints \<and>
   ''convex-hull'' \<in> set strategies \<and>
   (\<exists>res t c. dispatch ''convex-hull'' 2 (\<lambda>_. False) fivePoints = Launched (Some (Inr res)) \<and>
      best res = Some (t, c) \<and> hd t = last t \<and> mset (butlast t) = mset fivePoints)"
proof -
  have h1: "distinct fivePoints" by (simp add: fivePoints_def pt_def)
  have h2: "3 \<le> length fivePoints" by (simp add: fivePoints_def)
  have h3: "2 < length fivePoints" by (simp add: fivePoints_def)
  have h4: "''convex-hull'' \<in> set strategies" by (simp add: strategies_def)
  show ?thesis
    using h1 h2 h3 h4 final_tour_closed_and_complete[OF h1 h2 h3 h4] by simp
qed

section \<open>C2: which point sets every strategy handles\<close>

text \<open>
  With an empty path the scan of the hull strategy finds nothing, and the loop evaluates
  its condition over and over on the same state: it returns only if it is not entered.
\<close>

lemma ni_scan_empty_path: "ni_scan [] rem = (None, None, 0)"
  unfolding ni_scan_def by (induction rem) simp_all

lemma ch_loop_empty_path:
  assumes "ch_loop stop k path rem sts = Some res"
  shows "path \<noteq> [] \<or> rem = [] \<or> stop k"
proof (rule ch_loop.raw_induct[where P = "\<lambda>stop k path rem sts res. path \<noteq> [] \<or> rem = [] \<or> stop k",
      OF _ assms])
  fix loop :: "token \<Rightarrow> nat \<Rightarrow> point list \<Rightarrow> point list \<Rightarrow> step list \<Rightarrow> run option"
  fix stop k path rem sts res
  assume IH: "\<And>stop k path rem sts res. loop stop k path rem sts = Some res \<Longrightarrow>
      path \<noteq> [] \<or> rem = [] \<or> stop k"
  assume body: "(if rem \<noteq> [] \<and> \<not> stop k
      then case fst (ni_scan path rem) of None \<Rightarrow> loop stop k path rem sts
           | Some nearestPoint \<Rightarrow>
               let path' = insertAt (snd (snd (ni_scan path rem))) nearestPoint path
               in loop stop (Suc k) path' (filter (\<lambda>p. p \<noteq> nearestPoint) rem)
                    (sts @ [closing path'])
      else Some (ai_finish (stop k) path rem sts)) = Some res"
  show "path \<noteq> [] \<or> rem = [] \<or> stop k"
  proof (rule ccontr)
    assume "\<not> (path \<noteq> [] \<or> rem = [] \<or> stop k)"
    then have empty: "path = []" and enter: "rem \<noteq> [] \<and> \<not> stop k" by simp_all
    with body have "loop stop k path rem sts = Some res"
      by (simp add: ni_scan_empty_path)
    from IH[OF this] empty enter show False by simp
  qed
qed

lemma convexHull_one_point: "convexHull (\<lambda>_. False) [p] = None"
proof (cases "convexHull (\<lambda>_. False) [p]")
  case None
  then show ?thesis .
next
  case (Some res)
  have "hullPoints [p] = []"
    by (simp add: hullPoints_def halfHull_def sortedPoints_def hullPush_def)
  with Some have "ch_loop (\<lambda>_. False) 0 [] [p] [closing []] = Some res"
    by (simp add: convexHull_def)
  from ch_loop_empty_path[OF this] show ?thesis by simp
qed

text \<open>
  C2 (as amended). For a set of at least two distinct points every strategy returns, with
  no error, whatever the flag does; nearest neighbour and furthest insertion also do on a
  single point.
\<close>

theorem strategies_return:
  assumes "distinct ps" and "r < length ps" and "name \<in> set strategies"
    and "2 \<le> length ps \<or> name = ''nearest-neighbor'' \<or> name = ''furthest-insertion''"
  shows "\<exists>res. dispatch name r stop ps = Launched (Some (Inr res))"
proof -
  from assms(2) have ne: "ps \<noteq> []" by auto
  from assms(3) show ?thesis
  proof (cases rule: strategies_cases)
    case 1
    from nearestNeighbor_run(1)[OF assms(1,2), of stop] 1 show ?thesis
      by (simp add: dispatch_nn)
  next
    case 2
    with assms(4) have two: "2 \<le> length ps" by simp
    from arbitraryInsertion_run[OF assms(1) two assms(2), of stop] obtain second where
      "arbitraryInsertion r stop ps =
         Inr (ai_loop stop 0 [ps ! r, second] (filter (\<lambda>p. p \<notin> set [ps ! r, second]) ps) [])" .
    with 2 show ?thesis by (simp add: dispatch_ai)
  next
    case 3
    with assms(4) have two: "2 \<le> length ps" by simp
    from nearestInsertion_run[OF assms(1) two assms(2), of stop] obtain res where
      "nearestInsertion r stop ps = Some (Inr res)" .
    with 3 show ?thesis by (simp add: dispatch_ni)
  next
    case 4
    from furthestInsertion_run[OF assms(1) ne, of stop] obtain res where
      "furthestInsertion stop ps = Some (Inr res)" .
    with 4 show ?thesis by (simp add: dispatch_fi)
  next
    case 5
    with assms(4) have two: "2 \<le> length ps" by simp
    from convexHull_run[OF assms(1) two, of stop] obtain res where
      "convexHull stop ps = Some res" .
    with 5 show ?thesis by (simp add: dispatch_ch)
  qed
qed

theorem strategies_return_witness:
  "distinct [pt 20 15, pt 40 45] \<and> 1 < length [pt 20 15, pt 40 45] \<and>
   ''arbitrary-insertion'' \<in> set strategies \<and> 2 \<le> length [pt 20 15, pt 40 45] \<and>
   (\<exists>res. dispatch ''arbitrary-insertion'' 1 (\<lambda>k. 3 \<le> k) [pt 20 15, pt 40 45] =
      Launched (Some (Inr res)))"
proof -
  have h1: "distinct [pt 20 15, pt 40 45]" by (simp add: pt_def)
  have h2: "1 < length [pt 20 15, pt 40 45]" by simp
  have h3: "''arbitrary-insertion'' \<in> set strategies" by (simp add: strategies_def)
  have h4: "2 \<le> length [pt 20 15, pt 40 45] \<or> ''arbitrary-insertion'' = ''nearest-neighbor'' \<or>
      ''arbitrary-insertion'' = ''furthest-insertion''" by simp
  show ?thesis
    using h1 h2 h3 strategies_return[OF h1 h2 h3 h4] by simp
qed

text \<open>
  C2 as stated fails on a single point: arbitrary insertion and nearest insertion read a
  field of \<^verbatim>\<open>undefined\<close> in \<^verbatim>\<open>pathCost\<close> (a \<^verbatim>\<open>TypeError\<close>), and the hull strategy never
  returns.
\<close>

theorem one_point_counterexample:
  "dispatch ''arbitrary-insertion'' 0 (\<lambda>_. False) [pt 20 15] = Launched (Some (Inl TypeError)) \<and>
   dispatch ''nearest-insertion'' 0 (\<lambda>_. False) [pt 20 15] = Launched (Some (Inl TypeError)) \<and>
   dispatch ''convex-hull'' 0 (\<lambda>_. False) [pt 20 15] = Launched None"
  by (simp add: dispatch_ai dispatch_ni dispatch_ch arbitraryInsertion_def nearestInsertion_def
      convexHull_one_point)

section \<open>The five strategies: the states of a run\<close>

lemma shown_open:
  "shown ''nearest-neighbor'' = (\<lambda>t. t)" "shown ''furthest-insertion'' = (\<lambda>t. t)"
  by (simp_all add: shown_def fun_eq_iff)

lemma shown_closed:
  "shown ''arbitrary-insertion'' = closing" "shown ''nearest-insertion'' = closing"
  "shown ''convex-hull'' = closing"
  by (simp_all add: shown_def fun_eq_iff)

lemma nearestNeighbor_trace:
  assumes "distinct ps" and "r < length ps"
  obtains res states where "nearestNeighbor r stop ps = Inr res"
    and "hd states = ([ps ! r], filter (\<lambda>p. p \<noteq> ps ! r) ps)"
    and "loop_trace moves_one True (\<lambda>t. t) stop 0 [] res states"
proof -
  from nn_loop_trace[of "[ps ! r]" "ps ! r" "filter (\<lambda>p. p \<noteq> ps ! r) ps" stop 0 "[]"]
  obtain states where hd: "hd states = ([ps ! r], filter (\<lambda>p. p \<noteq> ps ! r) ps)"
    and tr: "loop_trace moves_one True (\<lambda>t. t) stop 0 []
        (nn_loop stop 0 (ps ! r) [ps ! r] (filter (\<lambda>p. p \<noteq> ps ! r) ps) []) states"
    by auto
  from nearestNeighbor_run(1)[OF assms, of stop] hd tr show ?thesis by (rule that)
qed

lemma arbitraryInsertion_trace:
  assumes "distinct ps" and "2 \<le> length ps" and "r < length ps"
  obtains res second states where "arbitraryInsertion r stop ps = Inr res"
    and "find (\<lambda>p. p \<noteq> ps ! r) ps = Some second"
    and "hd states = ([ps ! r, second], filter (\<lambda>p. p \<notin> set [ps ! r, second]) ps)"
    and "loop_trace arbitrary_round False closing stop 0 [] res states"
proof -
  from find_second[OF assms(1,2), of "ps ! r"] obtain second where
    f: "find (\<lambda>p. p \<noteq> ps ! r) ps = Some second" .
  let ?rem = "filter (\<lambda>p. p \<notin> set [ps ! r, second]) ps"
  from ai_loop_trace[of "[ps ! r, second]" ?rem stop 0 "[]"] obtain states where
    hd: "hd states = ([ps ! r, second], ?rem)"
    and tr: "loop_trace arbitrary_round False closing stop 0 []
        (ai_loop stop 0 [ps ! r, second] ?rem []) states" by blast
  have "arbitraryInsertion r stop ps = Inr (ai_loop stop 0 [ps ! r, second] ?rem [])"
    using assms(3) f by (simp add: arbitraryInsertion_def Let_def)
  from this f hd tr show ?thesis by (rule that)
qed

lemma nearestInsertion_trace:
  assumes "distinct ps" and "2 \<le> length ps" and "r < length ps"
  obtains res second states where "nearestInsertion r stop ps = Some (Inr res)"
    and "find (\<lambda>p. p \<noteq> ps ! r) ps = Some second"
    and "hd states = ([ps ! r, second], filter (\<lambda>p. p \<notin> set [ps ! r, second]) ps)"
    and "loop_trace moves_inside True closing stop 0 [] res states"
proof -
  from find_second[OF assms(1,2), of "ps ! r"] obtain second where
    f: "find (\<lambda>p. p \<noteq> ps ! r) ps = Some second" .
  let ?rem = "filter (\<lambda>p. p \<notin> set [ps ! r, second]) ps"
  from ni_loop_trace[of "[ps ! r, second]" stop 0 ?rem "[]"] obtain res states where
    res: "ni_loop stop 0 [ps ! r, second] ?rem [] = Some res"
    and hd: "hd states = ([ps ! r, second], ?rem)"
    and tr: "loop_trace moves_inside True closing stop 0 [] res states" by auto
  have "nearestInsertion r stop ps = Some (Inr res)"
    using assms(3) f res by (simp add: nearestInsertion_def Let_def)
  from this f hd tr show ?thesis by (rule that)
qed

lemma fi_sorted_split:
  assumes "distinct ps" and "2 \<le> length ps"
  shows "fi_sorted ps = hd (fi_sorted ps) # tl (fi_sorted ps)"
    and "distinct (tl (fi_sorted ps))"
    and "set (tl (fi_sorted ps)) \<inter> set [hd ps, hd (fi_sorted ps)] = {}"
    and "mset [hd ps, hd (fi_sorted ps)] + mset (tl (fi_sorted ps)) = mset ps"
proof -
  from assms(2) obtain first others where ps: "ps = first # others" and o: "others \<noteq> []"
    by (cases ps; cases "tl ps") auto
  have d: "distinct (fi_sorted ps)" and s: "set (fi_sorted ps) = set others"
    and m: "mset (fi_sorted ps) = mset others"
    using assms(1) ps by (simp_all add: fi_sorted_def)
  from o m have ne: "fi_sorted ps \<noteq> []" by auto
  then show split: "fi_sorted ps = hd (fi_sorted ps) # tl (fi_sorted ps)" by simp
  from d split show "distinct (tl (fi_sorted ps))" by (metis distinct.simps(2))
  have "hd (fi_sorted ps) \<notin> set (tl (fi_sorted ps))"
    using d split by (metis distinct.simps(2))
  moreover have "first \<notin> set (tl (fi_sorted ps))"
    using assms(1) ps s split by (metis distinct.simps(2) list.set_intros(2))
  ultimately show "set (tl (fi_sorted ps)) \<inter> set [hd ps, hd (fi_sorted ps)] = {}"
    using ps by auto
  have "mset (fi_sorted ps) = add_mset (hd (fi_sorted ps)) (mset (tl (fi_sorted ps)))"
    using split by (metis mset.simps(2))
  with m ps show "mset [hd ps, hd (fi_sorted ps)] + mset (tl (fi_sorted ps)) = mset ps"
    by simp
qed

lemma furthestInsertion_trace:
  assumes "distinct ps" and "2 \<le> length ps"
  obtains res states where "furthestInsertion stop ps = Some (Inr res)"
    and "hd states = ([hd ps, hd (fi_sorted ps)], tl (fi_sorted ps))"
    and "loop_trace furthest_round True (\<lambda>t. t) stop 0 [[hd ps, hd (fi_sorted ps)]] res states"
proof -
  note split = fi_sorted_split[OF assms]
  from assms(2) obtain first others where ps: "ps = first # others" by (cases ps) auto
  let ?path = "[hd ps, hd (fi_sorted ps)]" and ?rem = "tl (fi_sorted ps)"
  from fi_loop_trace[OF _ split(2,3), of stop 0 "[?path]"] obtain res states where
    res: "fi_loop stop 0 ?path ?rem [?path] = Some res"
    and hd: "hd states = (?path, ?rem)"
    and tr: "loop_trace furthest_round True (\<lambda>t. t) stop 0 [?path] res states" by auto
  have t1: "take 1 (fi_sorted ps) = [hd (fi_sorted ps)]" and d1: "drop 1 (fi_sorted ps) = tl (fi_sorted ps)"
    using split(1) by (metis One_nat_def take_Suc_Cons take0, simp add: drop_Suc)
  have "furthestInsertion stop ps = Some (Inr res)"
    using res ps t1 d1 by (simp add: furthestInsertion_def fi_sorted_def Let_def)
  from this hd tr show ?thesis by (rule that)
qed

lemma convexHull_trace:
  assumes "distinct ps" and "2 \<le> length ps"
  obtains res states where "convexHull stop ps = Some res"
    and "hd states = (hullPoints ps, filter (\<lambda>p. p \<notin> set (hullPoints ps)) ps)"
    and "loop_trace moves_inside False closing stop 0 [closing (hullPoints ps)] res states"
proof -
  let ?path = "hullPoints ps"
  let ?rem = "filter (\<lambda>p. p \<notin> set ?path) ps"
  have ne: "?path \<noteq> []" using assms by (rule hullPoints_not_Nil)
  have dr: "distinct ?rem" using assms(1) by simp
  from ch_loop_trace[OF ne dr, of stop 0 "[closing ?path]"] obtain res states where
    res: "ch_loop stop 0 ?path ?rem [closing ?path] = Some res"
    and hd: "hd states = (?path, ?rem)"
    and tr: "loop_trace moves_inside False closing stop 0 [closing ?path] res states" by auto
  have "convexHull stop ps = Some res"
    using res by (simp add: convexHull_def Let_def)
  from this hd tr show ?thesis by (rule that)
qed

text \<open>
  The five runs under one description: the strategy returns a run, which goes through
  states that each move one point; the first state holds every point of the set once.
\<close>

lemma dispatch_trace:
  assumes "distinct ps" and "2 \<le> length ps" and "r < length ps" and "name \<in> set strategies"
  obtains res states where "dispatch name r stop ps = Launched (Some (Inr res))"
    and "loop_trace moves_one
           (name = ''nearest-neighbor'' \<or> name = ''nearest-insertion'' \<or> name = ''furthest-insertion'')
           (shown name) stop 0
           (if name = ''furthest-insertion'' \<or> name = ''convex-hull''
            then [shown name (fst (hd states))] else []) res states"
    and "mset (fst (hd states)) + mset (snd (hd states)) = mset ps"
    and "length (fst (hd states)) =
           (if name = ''nearest-neighbor'' then 1
            else if name = ''convex-hull'' then length (hullPoints ps) else 2)"
proof -
  from assms(4) show ?thesis
  proof (cases rule: strategies_cases)
    case 1
    from nearestNeighbor_trace[OF assms(1,3), of stop] obtain res states where
      run: "nearestNeighbor r stop ps = Inr res"
      and hd: "hd states = ([ps ! r], filter (\<lambda>p. p \<noteq> ps ! r) ps)"
      and tr: "loop_trace moves_one True (\<lambda>t. t) stop 0 [] res states" .
    show ?thesis
    proof (rule that[of res states])
      show "dispatch name r stop ps = Launched (Some (Inr res))"
        using run 1 by (simp add: dispatch_nn)
      show "loop_trace moves_one
           (name = ''nearest-neighbor'' \<or> name = ''nearest-insertion'' \<or> name = ''furthest-insertion'')
           (shown name) stop 0
           (if name = ''furthest-insertion'' \<or> name = ''convex-hull''
            then [shown name (fst (hd states))] else []) res states"
        using tr unfolding 1 shown_open by simp
      show "mset (fst (hd states)) + mset (snd (hd states)) = mset ps"
        using nearestNeighbor_run(3)[OF assms(1,3)] hd by simp
      show "length (fst (hd states)) =
           (if name = ''nearest-neighbor'' then 1
            else if name = ''convex-hull'' then length (hullPoints ps) else 2)"
        using hd 1 by simp
    qed
  next
    case 2
    from arbitraryInsertion_trace[OF assms(1,2,3), of stop] obtain res second states where
      run: "arbitraryInsertion r stop ps = Inr res"
      and f: "find (\<lambda>p. p \<noteq> ps ! r) ps = Some second"
      and hd: "hd states = ([ps ! r, second], filter (\<lambda>p. p \<notin> set [ps ! r, second]) ps)"
      and tr: "loop_trace arbitrary_round False closing stop 0 [] res states" .
    from f have mem: "second \<in> set ps" "second \<noteq> ps ! r" by (auto simp: find_Some_iff)
    have sub: "distinct [ps ! r, second]" "set [ps ! r, second] \<subseteq> set ps"
      using assms(3) mem by auto
    show ?thesis
    proof (rule that[of res states])
      show "dispatch name r stop ps = Launched (Some (Inr res))"
        using run 2 by (simp add: dispatch_ai)
      show "loop_trace moves_one
           (name = ''nearest-neighbor'' \<or> name = ''nearest-insertion'' \<or> name = ''furthest-insertion'')
           (shown name) stop 0
           (if name = ''furthest-insertion'' \<or> name = ''convex-hull''
            then [shown name (fst (hd states))] else []) res states"
        using loop_trace_mono[OF tr arbitrary_round_moves_one] unfolding 2 shown_closed by simp
      show "mset (fst (hd states)) + mset (snd (hd states)) = mset ps"
        using split_chosen[OF assms(1) sub] hd by simp
      show "length (fst (hd states)) =
           (if name = ''nearest-neighbor'' then 1
            else if name = ''convex-hull'' then length (hullPoints ps) else 2)"
        using hd 2 by simp
    qed
  next
    case 3
    from nearestInsertion_trace[OF assms(1,2,3), of stop] obtain res second states where
      run: "nearestInsertion r stop ps = Some (Inr res)"
      and f: "find (\<lambda>p. p \<noteq> ps ! r) ps = Some second"
      and hd: "hd states = ([ps ! r, second], filter (\<lambda>p. p \<notin> set [ps ! r, second]) ps)"
      and tr: "loop_trace moves_inside True closing stop 0 [] res states" .
    from f have mem: "second \<in> set ps" "second \<noteq> ps ! r" by (auto simp: find_Some_iff)
    have sub: "distinct [ps ! r, second]" "set [ps ! r, second] \<subseteq> set ps"
      using assms(3) mem by auto
    show ?thesis
    proof (rule that[of res states])
      show "dispatch name r stop ps = Launched (Some (Inr res))"
        using run 3 by (simp add: dispatch_ni)
      show "loop_trace moves_one
           (name = ''nearest-neighbor'' \<or> name = ''nearest-insertion'' \<or> name = ''furthest-insertion'')
           (shown name) stop 0
           (if name = ''furthest-insertion'' \<or> name = ''convex-hull''
            then [shown name (fst (hd states))] else []) res states"
        using loop_trace_mono[OF tr moves_inside_moves_one] unfolding 3 shown_closed by simp
      show "mset (fst (hd states)) + mset (snd (hd states)) = mset ps"
        using split_chosen[OF assms(1) sub] hd by simp
      show "length (fst (hd states)) =
           (if name = ''nearest-neighbor'' then 1
            else if name = ''convex-hull'' then length (hullPoints ps) else 2)"
        using hd 3 by simp
    qed
  next
    case 4
    from furthestInsertion_trace[OF assms(1,2), of stop] obtain res states where
      run: "furthestInsertion stop ps = Some (Inr res)"
      and hd: "hd states = ([hd ps, hd (fi_sorted ps)], tl (fi_sorted ps))"
      and tr: "loop_trace furthest_round True (\<lambda>t. t) stop 0 [[hd ps, hd (fi_sorted ps)]] res states" .
    show ?thesis
    proof (rule that[of res states])
      show "dispatch name r stop ps = Launched (Some (Inr res))"
        using run 4 by (simp add: dispatch_fi)
      have "loop_trace moves_one True (\<lambda>t. t) stop 0 [[hd ps, hd (fi_sorted ps)]] res states"
        using loop_trace_mono[OF tr] furthest_round_moves_inside moves_inside_moves_one by blast
      then show "loop_trace moves_one
           (name = ''nearest-neighbor'' \<or> name = ''nearest-insertion'' \<or> name = ''furthest-insertion'')
           (shown name) stop 0
           (if name = ''furthest-insertion'' \<or> name = ''convex-hull''
            then [shown name (fst (hd states))] else []) res states"
        unfolding 4 shown_open using hd by simp
      show "mset (fst (hd states)) + mset (snd (hd states)) = mset ps"
        using fi_sorted_split(4)[OF assms(1,2)] hd by simp
      show "length (fst (hd states)) =
           (if name = ''nearest-neighbor'' then 1
            else if name = ''convex-hull'' then length (hullPoints ps) else 2)"
        using hd 4 by simp
    qed
  next
    case 5
    from convexHull_trace[OF assms(1,2), of stop] obtain res states where
      run: "convexHull stop ps = Some res"
      and hd: "hd states = (hullPoints ps, filter (\<lambda>p. p \<notin> set (hullPoints ps)) ps)"
      and tr: "loop_trace moves_inside False closing stop 0 [closing (hullPoints ps)] res states" .
    show ?thesis
    proof (rule that[of res states])
      show "dispatch name r stop ps = Launched (Some (Inr res))"
        using run 5 by (simp add: dispatch_ch)
      have "loop_trace moves_one False closing stop 0 [closing (hullPoints ps)] res states"
        using loop_trace_mono[OF tr moves_inside_moves_one] .
      then show "loop_trace moves_one
           (name = ''nearest-neighbor'' \<or> name = ''nearest-insertion'' \<or> name = ''furthest-insertion'')
           (shown name) stop 0
           (if name = ''furthest-insertion'' \<or> name = ''convex-hull''
            then [shown name (fst (hd states))] else []) res states"
        unfolding 5 shown_closed using hd by simp
      show "mset (fst (hd states)) + mset (snd (hd states)) = mset ps"
        using split_chosen[OF assms(1) hullPoints_distinct[OF assms(1)] hullPoints_subset[of ps]] hd
        by simp
      show "length (fst (hd states)) =
           (if name = ''nearest-neighbor'' then 1
            else if name = ''convex-hull'' then length (hullPoints ps) else 2)"
        using hd 5 by simp
    qed
  qed
qed

section \<open>C3: the number of possible paths\<close>

lemma rnd_exact_nat:
  assumes "\<bar>m\<bar> < 2 ^ 53"
  shows "rnd (of_int m * 2 ^ e) = of_int m * 2 ^ e"
  using rnd_exact[OF assms, of "int e"] by (simp add: powr_realpow)

text \<open>Up to \<open>22\<close> every product is a double: \<open>22!\<close> is \<open>2143861251406875 * 2 ^ 19\<close>.\<close>

lemma factorial_values:
  shows "factorial 0 = 1"
    "factorial (Suc 0) = 1"
    "factorial 2 = 2"
    "factorial 3 = 6"
    "factorial 4 = 24"
    "factorial 5 = 120"
    "factorial 6 = 720"
    "factorial 7 = 5040"
    "factorial 8 = 40320"
    "factorial 9 = 362880"
    "factorial 10 = 3628800"
    "factorial 11 = 39916800"
    "factorial 12 = 479001600"
    "factorial 13 = 6227020800"
    "factorial 14 = 87178291200"
    "factorial 15 = 1307674368000"
    "factorial 16 = 20922789888000"
    "factorial 17 = 355687428096000"
    "factorial 18 = 6402373705728000"
    "factorial 19 = 121645100408832000"
    "factorial 20 = 2432902008176640000"
    "factorial 21 = 51090942171709440000"
    "factorial 22 = 1124000727777607680000"
proof -
  have f0: "factorial 0 = 1" by (subst factorial.simps) simp
  have f1: "factorial (Suc 0) = 1" by (subst factorial.simps) simp
  have f2: "factorial 2 = 2"
    by (subst factorial.simps) (simp add: f1 fmul_def rnd_Ints)
  have f3: "factorial 3 = 6"
    by (subst factorial.simps) (simp add: f2 fmul_def rnd_Ints)
  have f4: "factorial 4 = 24"
    by (subst factorial.simps) (simp add: f3 fmul_def rnd_Ints)
  have f5: "factorial 5 = 120"
    by (subst factorial.simps) (simp add: f4 fmul_def rnd_Ints)
  have f6: "factorial 6 = 720"
    by (subst factorial.simps) (simp add: f5 fmul_def rnd_Ints)
  have f7: "factorial 7 = 5040"
    by (subst factorial.simps) (simp add: f6 fmul_def rnd_Ints)
  have f8: "factorial 8 = 40320"
    by (subst factorial.simps) (simp add: f7 fmul_def rnd_Ints)
  have f9: "factorial 9 = 362880"
    by (subst factorial.simps) (simp add: f8 fmul_def rnd_Ints)
  have f10: "factorial 10 = 3628800"
    by (subst factorial.simps) (simp add: f9 fmul_def rnd_Ints)
  have f11: "factorial 11 = 39916800"
    by (subst factorial.simps) (simp add: f10 fmul_def rnd_Ints)
  have f12: "factorial 12 = 479001600"
    by (subst factorial.simps) (simp add: f11 fmul_def rnd_Ints)
  have f13: "factorial 13 = 6227020800"
    by (subst factorial.simps) (simp add: f12 fmul_def rnd_Ints)
  have f14: "factorial 14 = 87178291200"
    by (subst factorial.simps) (simp add: f13 fmul_def rnd_Ints)
  have f15: "factorial 15 = 1307674368000"
    by (subst factorial.simps) (simp add: f14 fmul_def rnd_Ints)
  have f16: "factorial 16 = 20922789888000"
    by (subst factorial.simps) (simp add: f15 fmul_def rnd_Ints)
  have f17: "factorial 17 = 355687428096000"
    by (subst factorial.simps) (simp add: f16 fmul_def rnd_Ints)
  have f18: "factorial 18 = 6402373705728000"
    by (subst factorial.simps) (simp add: f17 fmul_def rnd_Ints)
  have f19: "factorial 19 = 121645100408832000"
    using rnd_exact_nat[of 1856156927625 16] by (subst factorial.simps) (simp add: f18 fmul_def)
  have f20: "factorial 20 = 2432902008176640000"
    using rnd_exact_nat[of 9280784638125 18] by (subst factorial.simps) (simp add: f19 fmul_def)
  have f21: "factorial 21 = 51090942171709440000"
    using rnd_exact_nat[of 194896477400625 18] by (subst factorial.simps) (simp add: f20 fmul_def)
  have f22: "factorial 22 = 1124000727777607680000"
    using rnd_exact_nat[of 2143861251406875 19] by (subst factorial.simps) (simp add: f21 fmul_def)
  show "factorial 0 = 1" by (rule f0)
  show "factorial (Suc 0) = 1" by (rule f1)
  show "factorial 2 = 2" by (rule f2)
  show "factorial 3 = 6" by (rule f3)
  show "factorial 4 = 24" by (rule f4)
  show "factorial 5 = 120" by (rule f5)
  show "factorial 6 = 720" by (rule f6)
  show "factorial 7 = 5040" by (rule f7)
  show "factorial 8 = 40320" by (rule f8)
  show "factorial 9 = 362880" by (rule f9)
  show "factorial 10 = 3628800" by (rule f10)
  show "factorial 11 = 39916800" by (rule f11)
  show "factorial 12 = 479001600" by (rule f12)
  show "factorial 13 = 6227020800" by (rule f13)
  show "factorial 14 = 87178291200" by (rule f14)
  show "factorial 15 = 1307674368000" by (rule f15)
  show "factorial 16 = 20922789888000" by (rule f16)
  show "factorial 17 = 355687428096000" by (rule f17)
  show "factorial 18 = 6402373705728000" by (rule f18)
  show "factorial 19 = 121645100408832000" by (rule f19)
  show "factorial 20 = 2432902008176640000" by (rule f20)
  show "factorial 21 = 51090942171709440000" by (rule f21)
  show "factorial 22 = 1124000727777607680000" by (rule f22)
qed

lemma factorial_exact:
  assumes "n \<le> 22"
  shows "factorial n = fact n"
proof -
  from assms have "n \<in> {0, 1, 2, 3, 4, 5, 6, 7, 8, 9, 10, 11, 12, 13, 14, 15, 16, 17, 18, 19, 20, 21, 22}"
    by (simp only: insert_iff empty_iff) presburger
  then show ?thesis
    by (elim insertE emptyE) (simp_all add: factorial_values fact_numeral)
qed

text \<open>
  The first product that is not a double: \<open>23 * 22!\<close> lies between two doubles that are
  \<open>2 ^ 22\<close> apart.
\<close>

lemma factorial_23:
  "factorial 23 = 25852016738884978212864" "fact 23 = (25852016738884976640000 :: real)"
proof -
  have "rnd (23 * 1124000727777607680000) = 25852016738884978212864"
    by (subst rnd_down[where n = 22]) (simp_all add: nearest_even_def)
  then show "factorial 23 = 25852016738884978212864"
    by (subst factorial.simps) (simp add: factorial_values fmul_def)
  show "fact 23 = (25852016738884976640000 :: real)" by (simp add: fact_numeral)
qed

lemma rnd_between:
  assumes "0 \<le> x"
  shows "(1 - 1 / 2 ^ 53) * x \<le> rnd x" and "rnd x \<le> (1 + 1 / 2 ^ 53) * x"
proof -
  from rnd_error[of x] assms have "\<bar>rnd x - x\<bar> \<le> x / 2 ^ 53" by simp
  then have "x - x / 2 ^ 53 \<le> rnd x" "rnd x \<le> x + x / 2 ^ 53" by linarith+
  then show "(1 - 1 / 2 ^ 53) * x \<le> rnd x" and "rnd x \<le> (1 + 1 / 2 ^ 53) * x"
    by (simp_all add: algebra_simps)
qed

lemma factorial_bounds:
  "(1 - 1 / 2 ^ 53) ^ n * fact n \<le> factorial n \<and> factorial n \<le> (1 + 1 / 2 ^ 53) ^ n * fact n"
proof (induction n)
  case 0
  show ?case by (simp add: factorial_values)
next
  case (Suc n)
  show ?case
  proof (cases "n = 0")
    case True
    then show ?thesis by (simp add: factorial_values)
  next
    case False
    let ?u = "1 / 2 ^ 53 :: real"
    let ?y = "real (Suc n) * factorial n"
    have eq: "factorial (Suc n) = rnd ?y"
      using False by (subst factorial.simps) (simp add: fmul_def)
    have lo0: "0 \<le> (1 - ?u) ^ n * fact n" by simp
    with Suc.IH have f0: "0 \<le> factorial n" by linarith
    then have y0: "0 \<le> ?y" by simp
    have "(1 - ?u) ^ Suc n * fact (Suc n) = (1 - ?u) * (real (Suc n) * ((1 - ?u) ^ n * fact n))"
      by (simp add: algebra_simps)
    also have "\<dots> \<le> (1 - ?u) * ?y"
      using Suc.IH by (intro mult_left_mono) simp_all
    also have "\<dots> \<le> rnd ?y" by (rule rnd_between(1)[OF y0])
    finally have lower: "(1 - ?u) ^ Suc n * fact (Suc n) \<le> factorial (Suc n)"
      unfolding eq .
    have "rnd ?y \<le> (1 + ?u) * ?y" by (rule rnd_between(2)[OF y0])
    also have "\<dots> \<le> (1 + ?u) * (real (Suc n) * ((1 + ?u) ^ n * fact n))"
      using Suc.IH by (intro mult_left_mono) simp_all
    also have "\<dots> = (1 + ?u) ^ Suc n * fact (Suc n)"
      by (simp add: algebra_simps)
    finally have upper: "factorial (Suc n) \<le> (1 + ?u) ^ Suc n * fact (Suc n)"
      unfolding eq .
    from lower upper show ?thesis by simp
  qed
qed

text \<open>
  C3 (as amended). The metric that \<^verbatim>\<open>randomizeVerticesCallback\<close> stores for a set of \<open>N\<close>
  points is \<^verbatim>\<open>factorial(N)\<close>: the products \<open>2 * 1\<close>, \<open>3 * 2\<close>, \<open>4 * 6\<close> and so on, each of a
  number with the result before it, each rounded to a double. Up to \<open>N = 22\<close> it is \<open>N!\<close>,
  the number of orderings of the points; beyond, it is \<open>N!\<close> up to the rounding of at most
  \<open>N\<close> products. It is not \<open>(N - 1)!\<close>.
\<close>

theorem possiblePaths_is_factorial:
  assumes "length newPoints = vertices st"
  shows "(length (points (randomizeVerticesCallback newPoints st)) \<le> 22 \<longrightarrow>
           possiblePaths (metrics (randomizeVerticesCallback newPoints st)) =
             fact (length (points (randomizeVerticesCallback newPoints st)))) \<and>
         (1 - 1 / 2 ^ 53) ^ length (points (randomizeVerticesCallback newPoints st)) *
             fact (length (points (randomizeVerticesCallback newPoints st)))
           \<le> possiblePaths (metrics (randomizeVerticesCallback newPoints st)) \<and>
         possiblePaths (metrics (randomizeVerticesCallback newPoints st))
           \<le> (1 + 1 / 2 ^ 53) ^ length (points (randomizeVerticesCallback newPoints st)) *
               fact (length (points (randomizeVerticesCallback newPoints st)))"
proof -
  have p: "possiblePaths (metrics (randomizeVerticesCallback newPoints st)) = factorial (length newPoints)"
    using assms by (simp add: randomizeVerticesCallback_def)
  have n: "length (points (randomizeVerticesCallback newPoints st)) = length newPoints"
    by (simp add: randomizeVerticesCallback_def)
  show ?thesis
    unfolding p n using factorial_exact[of "length newPoints"] factorial_bounds[of "length newPoints"]
    by blast
qed

theorem possiblePaths_is_factorial_witness:
  "length fivePoints = vertices (initialState\<lparr>vertices := 5\<rparr>) \<and>
   length (points (randomizeVerticesCallback fivePoints (initialState\<lparr>vertices := 5\<rparr>))) \<le> 22 \<and>
   possiblePaths (metrics (randomizeVerticesCallback fivePoints (initialState\<lparr>vertices := 5\<rparr>))) =
     fact (length (points (randomizeVerticesCallback fivePoints (initialState\<lparr>vertices := 5\<rparr>))))"
proof -
  have h: "length fivePoints = vertices (initialState\<lparr>vertices := 5\<rparr>)"
    by (simp add: fivePoints_def initialState_def)
  have n: "length (points (randomizeVerticesCallback fivePoints (initialState\<lparr>vertices := 5\<rparr>))) \<le> 22"
    by (simp add: randomizeVerticesCallback_def fivePoints_def)
  show ?thesis
    using h n possiblePaths_is_factorial[OF h] by blast
qed

text \<open>
  C3 as stated fails: for five points the metric is \<open>120\<close>, and \<open>(5 - 1)! = 24\<close>.
\<close>

theorem possiblePaths_counterexample:
  "length fivePoints = 5 \<and>
   possiblePaths (metrics (randomizeVerticesCallback fivePoints (initialState\<lparr>vertices := 5\<rparr>))) = 120 \<and>
   possiblePaths (metrics (randomizeVerticesCallback fivePoints (initialState\<lparr>vertices := 5\<rparr>)))
     \<noteq> fact (5 - 1)"
  by (simp add: fivePoints_def initialState_def randomizeVerticesCallback_def factorial_values
      fact_numeral)

section \<open>C10: the construction loops end\<close>

lemma finished_trace:
  assumes tr: "loop_trace moves_one pushes emit (\<lambda>_. False) 0 sts res states"
  shows "snd (last states) = []" and "remaining res = []" and "\<not> stopped res"
    and "best res = Some (closing (fst (last states)), pathCost (closing (fst (last states))))"
    and "steps res = sts @ map (\<lambda>s. emit (fst s)) (tl states)"
    and "successively moves_one states" and "states \<noteq> []"
    and "length states = length (snd (hd states)) + 1"
proof -
  from tr show ne: "states \<noteq> []" and succ: "successively moves_one states"
    and last: "snd (last states) = []" and "remaining res = []" and "\<not> stopped res"
    and "steps res = sts @ map (\<lambda>s. emit (fst s)) (tl states)"
    by (simp_all add: loop_trace_def)
  from tr show "best res = Some (closing (fst (last states)), pathCost (closing (fst (last states))))"
    by (simp add: loop_trace_def)
  from ne have lt: "length states - 1 < length states" by simp
  from last ne have "snd (states ! (length states - 1)) = []" by (simp add: last_conv_nth)
  with trace_lengths[OF succ lt] have "length states - 1 = length (snd (hd states))" by simp
  with lt show "length states = length (snd (hd states)) + 1" by simp
qed

text \<open>
  C10. For a set of at least three distinct points and a flag that is never set, every
  strategy returns, and its construction loop has gone through a sequence of states, from
  the state in which it is entered to one with no point remaining. From each state to the
  next exactly one point leaves the remaining points and enters the path (\<open>moves_one\<close>), so
  the \<open>i\<close>-th state has \<open>i\<close> points less remaining than the first. The first state holds
  every point of the set once: one point on the path for nearest neighbour, the hull for
  the hull strategy, two points for the insertion strategies. Every state reached is shown
  by one step, and the final tour is the last path, closed.
\<close>

theorem construction_loops_end:
  assumes "distinct ps" and "3 \<le> length ps" and "r < length ps" and "name \<in> set strategies"
  shows "\<exists>res states.
           dispatch name r (\<lambda>_. False) ps = Launched (Some (Inr res)) \<and>
           states \<noteq> [] \<and> successively moves_one states \<and>
           mset (fst (hd states)) + mset (snd (hd states)) = mset ps \<and>
           length (fst (hd states)) =
             (if name = ''nearest-neighbor'' then 1
              else if name = ''convex-hull'' then length (hullPoints ps) else 2) \<and>
           (\<forall>i<length states. length (snd (states ! i)) + i = length (snd (hd states))) \<and>
           snd (last states) = [] \<and> remaining res = [] \<and> \<not> stopped res \<and>
           steps res =
             (if name = ''furthest-insertion'' \<or> name = ''convex-hull''
              then [shown name (fst (hd states))] else []) @
             map (\<lambda>s. shown name (fst s)) (tl states) \<and>
           best res = Some (closing (fst (last states)), pathCost (closing (fst (last states)))) \<and>
           length (steps res) =
             (if name = ''nearest-neighbor'' then length ps - 1
              else if name = ''arbitrary-insertion'' \<or> name = ''nearest-insertion''
              then length ps - 2
              else if name = ''furthest-insertion'' then 1 + (length ps - 2)
              else 1 + (length ps - length (hullPoints ps)))"
proof -
  from assms(2) have two: "2 \<le> length ps" by simp
  from dispatch_trace[OF assms(1) two assms(3,4), of "\<lambda>_. False"] obtain res states where
    run: "dispatch name r (\<lambda>_. False) ps = Launched (Some (Inr res))"
    and tr: "loop_trace moves_one
           (name = ''nearest-neighbor'' \<or> name = ''nearest-insertion'' \<or> name = ''furthest-insertion'')
           (shown name) (\<lambda>_. False) 0
           (if name = ''furthest-insertion'' \<or> name = ''convex-hull''
            then [shown name (fst (hd states))] else []) res states"
    and bal: "mset (fst (hd states)) + mset (snd (hd states)) = mset ps"
    and len: "length (fst (hd states)) =
           (if name = ''nearest-neighbor'' then 1
            else if name = ''convex-hull'' then length (hullPoints ps) else 2)" .
  note fin = finished_trace[OF tr]
  have lens: "\<forall>i<length states. length (snd (states ! i)) + i = length (snd (hd states))"
    using trace_lengths[OF fin(6)] by blast
  from bal have "length (fst (hd states)) + length (snd (hd states)) = length ps"
    by (metis mset_append size_mset length_append)
  with fin(8) have count: "length states - 1 = length ps - length (fst (hd states))" by simp
  have steps_len: "length (steps res) =
      (if name = ''furthest-insertion'' \<or> name = ''convex-hull'' then 1 else 0) + (length states - 1)"
    using fin(5) by simp
  have total: "length (steps res) =
             (if name = ''nearest-neighbor'' then length ps - 1
              else if name = ''arbitrary-insertion'' \<or> name = ''nearest-insertion''
              then length ps - 2
              else if name = ''furthest-insertion'' then 1 + (length ps - 2)
              else 1 + (length ps - length (hullPoints ps)))"
    using assms(4)
  proof (cases rule: strategies_cases)
    case 1
    with steps_len count len show ?thesis by simp
  next
    case 2
    with steps_len count len show ?thesis by simp
  next
    case 3
    with steps_len count len show ?thesis by simp
  next
    case 4
    with steps_len count len show ?thesis by simp
  next
    case 5
    with steps_len count len show ?thesis by simp
  qed
  show ?thesis
    using run fin(7) fin(6) bal len lens fin(1) fin(2) fin(3) fin(5) fin(4) total
    by (intro exI[of _ res] exI[of _ states]) (simp only: simp_thms)
qed

theorem construction_loops_end_witness:
  "distinct fivePoints \<and> 3 \<le> length fivePoints \<and> 0 < length fivePoints \<and>
   ''nearest-insertion'' \<in> set strategies \<and>
   (\<exists>res states.
      dispatch ''nearest-insertion'' 0 (\<lambda>_. False) fivePoints = Launched (Some (Inr res)) \<and>
      length states = 4 \<and> successively moves_one states \<and>
      length (fst (hd states)) = 2 \<and> length (snd (hd states)) = 3 \<and>
      snd (last states) = [] \<and> remaining res = [] \<and> \<not> stopped res \<and>
      steps res = map (\<lambda>s. closing (fst s)) (tl states) \<and> length (steps res) = 3)"
proof -
  have h1: "distinct fivePoints" by (simp add: fivePoints_def pt_def)
  have h2: "3 \<le> length fivePoints" by (simp add: fivePoints_def)
  have h3: "0 < length fivePoints" by (simp add: fivePoints_def)
  have h4: "''nearest-insertion'' \<in> set strategies" by (simp add: strategies_def)
  have n: "length fivePoints = 5" by (simp add: fivePoints_def)
  from construction_loops_end[OF h1 h2 h3 h4] obtain res states where
    run: "dispatch ''nearest-insertion'' 0 (\<lambda>_. False) fivePoints = Launched (Some (Inr res))"
    and ne: "states \<noteq> []" and succ: "successively moves_one states"
    and bal: "mset (fst (hd states)) + mset (snd (hd states)) = mset fivePoints"
    and len: "length (fst (hd states)) = 2"
    and lens: "\<forall>i<length states. length (snd (states ! i)) + i = length (snd (hd states))"
    and last: "snd (last states) = []" and rem: "remaining res = []" and flag: "\<not> stopped res"
    and steps: "steps res = map (\<lambda>s. shown ''nearest-insertion'' (fst s)) (tl states)"
    and total: "length (steps res) = 3"
    by (auto simp: n)
  from bal have "length (fst (hd states)) + length (snd (hd states)) = length fivePoints"
    by (metis mset_append size_mset length_append)
  with len n have three: "length (snd (hd states)) = 3" by simp
  from steps total have four: "length states = 4" by simp
  from steps have steps': "steps res = map (\<lambda>s. closing (fst s)) (tl states)"
    by (simp add: shown_closed)
  show ?thesis
    using h1 h2 h3 h4 run four succ len three last rem flag steps' total by blast
qed

section \<open>C6: a stopped run\<close>

subsection \<open>The flag that a run reads\<close>





text \<open>
  \<^verbatim>\<open>resetVisualization\<close> and \<^verbatim>\<open>startAlgorithm\<close> do to the ref what the buttons \<open>Reset\<close> and
  \<open>Start\<close> are said to do.
\<close>

lemma resetVisualization_presses:
  "algorithmRef (resetVisualization st) = pressed Reset (algorithmRef st)"
  by (simp add: resetVisualization_def pressed_def)

lemma startAlgorithm_presses:
  "startAlgorithm r stop st = Inr (st', l) \<Longrightarrow> algorithmRef st' = pressed Start (algorithmRef st)"
  by (auto simp: startAlgorithm_def pressed_def Let_def split: launch.splits)

text \<open>With no button pressed the flag stays unset.\<close>

lemma concat_of_empties: "concat (map (\<lambda>_. []) (xs :: nat list)) = ([] :: button list)"
  by (induction xs) simp_all

lemma observed_nothing: "observed name (\<lambda>_. []) = (\<lambda>_. False)"
  by (simp add: observed_def flagAfter_def fun_eq_iff concat_of_empties)




subsection \<open>What a stopped run leaves\<close>







section \<open>Distances between points with whole coordinates\<close>

lemma distance_same_row:
  assumes "a \<in> \<int>" and "b \<in> \<int>" and "\<bar>a - b\<bar> < 2 ^ 26"
  shows "distance (pt a c) (pt b c) = \<bar>a - b\<bar>"
proof -
  define d where "d = a - b"
  have dZ: "d \<in> \<int>" using assms(1,2) by (simp add: d_def)
  have small: "\<bar>d\<bar> < 2 ^ 26" using assms(3) by (simp add: d_def)
  then have d53: "\<bar>d\<bar> < 2 ^ 53" by simp
  have "\<bar>d\<bar> * \<bar>d\<bar> < 2 ^ 26 * 2 ^ 26"
    using small by (intro mult_strict_mono) simp_all
  then have sq: "\<bar>d * d\<bar> < 2 ^ 53" by (simp add: abs_mult)
  have x: "fsub a b = d" unfolding fsub_def d_def[symmetric] using dZ d53 by (rule rnd_Ints)
  have y: "fsub c c = 0" by (simp add: fsub_def rnd_0)
  have xx: "fmul d d = d * d" unfolding fmul_def using dZ sq by (intro rnd_Ints) simp_all
  have yy: "fmul 0 0 = 0" by (simp add: fmul_def rnd_0)
  have sum: "fadd (d * d) 0 = d * d" unfolding fadd_def using dZ sq by (simp add: rnd_Ints)
  have root: "fsqrt (d * d) = \<bar>d\<bar>"
    unfolding fsqrt_def using dZ d53 by (simp add: rnd_Ints)
  show ?thesis
    unfolding distance_def by (simp add: pt_def x y xx yy sum root) (simp add: d_def)
qed

lemma distance_same_column:
  assumes "a \<in> \<int>" and "b \<in> \<int>" and "\<bar>a - b\<bar> < 2 ^ 26"
  shows "distance (pt c a) (pt c b) = \<bar>a - b\<bar>"
proof -
  define d where "d = a - b"
  have dZ: "d \<in> \<int>" using assms(1,2) by (simp add: d_def)
  have small: "\<bar>d\<bar> < 2 ^ 26" using assms(3) by (simp add: d_def)
  then have d53: "\<bar>d\<bar> < 2 ^ 53" by simp
  have "\<bar>d\<bar> * \<bar>d\<bar> < 2 ^ 26 * 2 ^ 26"
    using small by (intro mult_strict_mono) simp_all
  then have sq: "\<bar>d * d\<bar> < 2 ^ 53" by (simp add: abs_mult)
  have x: "fsub a b = d" unfolding fsub_def d_def[symmetric] using dZ d53 by (rule rnd_Ints)
  have y: "fsub c c = 0" by (simp add: fsub_def rnd_0)
  have xx: "fmul d d = d * d" unfolding fmul_def using dZ sq by (intro rnd_Ints) simp_all
  have yy: "fmul 0 0 = 0" by (simp add: fmul_def rnd_0)
  have sum: "fadd 0 (d * d) = d * d" unfolding fadd_def using dZ sq by (simp add: rnd_Ints)
  have root: "fsqrt (d * d) = \<bar>d\<bar>"
    unfolding fsqrt_def using dZ d53 by (simp add: rnd_Ints)
  show ?thesis
    unfolding distance_def by (simp add: pt_def x y xx yy sum root) (simp add: d_def)
qed

section \<open>C4: where arbitrary insertion puts a point\<close>

text \<open>
  C4 (as amended). Arbitrary insertion of \<^verbatim>\<open>tsp-visualizer.tsx\<close> starts from the drawn point and
  the first other point of the set, with the other points remaining in the order of the
  set. Every round of its loop is an \<open>arbitrary_round\<close>: the first remaining point goes to a
  position among \<open>0, \<dots>, length path\<close> at which the cost of the sequence with the point
  inserted, the sequence as it is and not closed, is least, and to the first such position;
  the cost is the sum of the distances of consecutive points, in doubles and from the left,
  which is what \<^verbatim>\<open>pathCost\<close> returns.
  The loop makes a round as long as points remain and the flag is unset, and every round
  is shown by a step with the path closed.
\<close>

theorem arbitrary_insertion_round:
  assumes "distinct ps" and "2 \<le> length ps" and "r < length ps"
  shows "\<exists>res second states.
           arbitraryInsertion r stop ps = Inr res \<and>
           find (\<lambda>p. p \<noteq> ps ! r) ps = Some second \<and>
           hd states = ([ps ! r, second], filter (\<lambda>p. p \<notin> set [ps ! r, second]) ps) \<and>
           loop_trace arbitrary_round False closing stop 0 [] res states"
  using arbitraryInsertion_trace[OF assms, of stop] by metis

lemma costs_on_a_row:
  "pathCost [pt 240 15, pt 20 15, pt 220 15] = 420"
  "pathCost [pt 20 15, pt 240 15, pt 220 15] = 240"
  "pathCost [pt 20 15, pt 220 15, pt 240 15] = 220"
  "pathCost [pt 240 15, pt 20 15, pt 220 15, pt 240 15] = 440"
  "pathCost [pt 20 15, pt 220 15, pt 240 15, pt 20 15] = 440"
  by (simp_all add: pathCost_def distance_same_row fadd_def rnd_Ints)

lemma first_least_on_a_row:
  assumes "first_least (\<lambda>i. tourCost (take i [pt 20 15, pt 220 15] @ [pt 240 15] @
      drop i [pt 20 15, pt 220 15])) (length [pt 20 15, pt 220 15] + 1) b"
  shows "b = 2"
proof -
  let ?c = "\<lambda>i. tourCost (take i [pt 20 15, pt 220 15] @ [pt 240 15] @ drop i [pt 20 15, pt 220 15])"
  have c: "?c 0 = 420" "?c 1 = 240" "?c 2 = 220"
    by (simp_all add: pathCost_tourCost[symmetric] costs_on_a_row)
  from assms have b: "b < 3" and all: "\<forall>i<3. ?c b \<le> ?c i"
    unfolding first_least_def by simp_all
  have "(2::nat) < 3" by simp
  with all have le: "?c b \<le> ?c 2" by blast
  from b have "b = 0 \<or> b = 1 \<or> b = 2" by auto
  then show ?thesis
  proof (elim disjE)
    assume "b = 0" with le c show ?thesis by simp
  next
    assume "b = 1" with le c show ?thesis by simp
  next
    assume "b = 2" then show ?thesis .
  qed
qed

theorem arbitrary_insertion_round_witness:
  "distinct [pt 20 15, pt 220 15, pt 240 15] \<and> 2 \<le> length [pt 20 15, pt 220 15, pt 240 15] \<and>
   0 < length [pt 20 15, pt 220 15, pt 240 15] \<and>
   (\<exists>res states.
      arbitraryInsertion 0 (\<lambda>_. False) [pt 20 15, pt 220 15, pt 240 15] = Inr res \<and>
      hd states = ([pt 20 15, pt 220 15], [pt 240 15]) \<and>
      loop_trace arbitrary_round False closing (\<lambda>_. False) 0 [] res states \<and>
      steps res = [[pt 20 15, pt 220 15, pt 240 15, pt 20 15]])"
proof -
  let ?ps = "[pt 20 15, pt 220 15, pt 240 15]"
  have h1: "distinct ?ps" by (simp add: pt_def)
  have h2: "2 \<le> length ?ps" by simp
  have h3: "0 < length ?ps" by simp
  from arbitrary_insertion_round[OF h1 h2 h3, of "\<lambda>_. False"] obtain res second states where
    run: "arbitraryInsertion 0 (\<lambda>_. False) ?ps = Inr res"
    and f: "find (\<lambda>p. p \<noteq> ?ps ! 0) ?ps = Some second"
    and hd: "hd states = ([?ps ! 0, second], filter (\<lambda>p. p \<notin> set [?ps ! 0, second]) ?ps)"
    and tr: "loop_trace arbitrary_round False closing (\<lambda>_. False) 0 [] res states"
    by blast
  from f have second: "second = pt 220 15" by (simp add: pt_def)
  from hd have hd': "hd states = ([pt 20 15, pt 220 15], [pt 240 15])"
    unfolding second by (simp add: pt_def)
  note fin = finished_trace[OF loop_trace_mono[OF tr arbitrary_round_moves_one]]
  from fin(8) hd' have "length states = 2" by simp
  then obtain s0 s1 where states: "states = [s0, s1]"
    by (cases states; cases "tl states"; cases "tl (tl states)") auto
  with hd' have s0: "s0 = ([pt 20 15, pt 220 15], [pt 240 15])" by simp
  from tr states have "arbitrary_round s0 s1" by (simp add: loop_trace_def)
  then obtain q rest b where q: "snd s0 = q # rest"
    and b: "first_least (\<lambda>i. tourCost (take i (fst s0) @ [q] @ drop i (fst s0))) (length (fst s0) + 1) b"
    and s1: "s1 = (take b (fst s0) @ [q] @ drop b (fst s0), rest)"
    unfolding arbitrary_round_def by blast
  from q s0 have q': "q = pt 240 15" "rest = []" by simp_all
  from b have "b = 2" unfolding s0 q' fst_conv by (rule first_least_on_a_row)
  with s1 s0 q' have "fst s1 = [pt 20 15, pt 220 15, pt 240 15]" by simp
  with fin(5) states have "steps res = [[pt 20 15, pt 220 15, pt 240 15, pt 20 15]]"
    by (simp add: closing_def)
  with run hd' tr h1 h2 h3 show ?thesis by blast
qed

text \<open>
  C4 as stated fails. On the path from \<open>(20, 15)\<close> to \<open>(220, 15)\<close> the point \<open>(240, 15)\<close> goes to
  position \<open>2\<close>, the end, where the open sequence is shortest. The closed sequence is no
  longer with the point at position \<open>0\<close>, so \<open>2\<close> is not the first position of least closed
  cost.
\<close>

lemma positions_of_two: "[0..<Suc (length [a, b])] = [0, 1, 2]" for a b :: point
  by (simp add: upt_rec)

lemma ai_scan_on_a_row:
  "ai_scan [pt 20 15, pt 220 15] (pt 240 15) = (2, Some 220)"
  unfolding ai_scan_def positions_of_two
  by (simp add: ai_try_def insertAt_def costs_on_a_row)

theorem closed_cost_counterexample:
  "fst (ai_scan [pt 20 15, pt 220 15] (pt 240 15)) = 2 \<and>
   pathCost (closing (insertAt 0 (pt 240 15) [pt 20 15, pt 220 15])) \<le>
     pathCost (closing (insertAt 2 (pt 240 15) [pt 20 15, pt 220 15]))"
  by (simp add: ai_scan_on_a_row insertAt_def closing_def costs_on_a_row)

section \<open>C5: which strategies draw at random\<close>

lemma hullPoints_hd:
  assumes "distinct ps" and "2 \<le> length ps"
  shows "hd (hullPoints ps) = hd (sortedPoints ps)"
proof -
  let ?S = "sortedPoints ps"
  let ?L = "foldl hullPush [] ?S"
  from assms(2) have len: "2 \<le> length ?S" by (simp add: sortedPoints_length)
  then have ne: "?S \<noteq> []" by auto
  have up: "sorted_wrt (before True) ?S"
    using sortedPoints_lex[OF assms(1)] by (simp add: before_def[abs_def])
  from scan_fold[OF ne up] have L: "scan_inv True (hd ?S) ?L" "hd ?L = last ?S" by simp_all
  then have Lne: "?L \<noteq> []" and last: "last ?L = hd ?S" by (simp_all add: scan_inv_def)
  have "hd ?S \<noteq> last ?S"
  proof -
    from len obtain a b rest where S: "?S = a # b # rest"
      by (cases ?S; cases "tl ?S") auto
    have "distinct ?S" using assms(1) by (rule sortedPoints_distinct)
    with S show ?thesis by auto
  qed
  with Lne last L(2) have tl: "tl ?L \<noteq> []" by (cases ?L; cases "tl ?L") auto
  then have "last (tl ?L) = last ?L" using Lne by (cases ?L) simp_all
  with tl last show ?thesis by (simp add: hullPoints_rev hd_rev)
qed

lemma sortedPoints_least:
  assumes "distinct ps" and "p \<in> set ps"
  shows "p = hd (sortedPoints ps) \<or> lexlt (hd (sortedPoints ps)) p"
proof -
  from assms(2) have "p \<in> set (sortedPoints ps)" by (simp add: sortedPoints_set)
  then obtain a rest where S: "sortedPoints ps = a # rest" and p: "p = a \<or> p \<in> set rest"
    by (cases "sortedPoints ps") auto
  from sortedPoints_lex[OF assms(1)] S have "\<forall>q\<in>set rest. lexlt a q" by simp
  with S p show ?thesis by auto
qed

lemma nearestInsertion_final:
  assumes "distinct ps" and "2 \<le> length ps" and "r < length ps"
  shows "\<exists>t. finalTour (dispatch ''nearest-insertion'' r (\<lambda>_. False) ps) = Some t \<and> hd t = ps ! r"
proof -
  from nearestInsertion_run[OF assms, of "\<lambda>_. False"] obtain second res where
    run: "nearestInsertion r (\<lambda>_. False) ps = Some (Inr res)"
    and post: "loop_post True closing (\<lambda>_. False) 0 [ps ! r, second]
        (filter (\<lambda>p. p \<notin> set [ps ! r, second]) ps) [] res"
    and hd: "hd (tour res) = ps ! r" .
  from loop_post_complete[OF post] obtain t where
    "best res = Some (closing t, pathCost (closing t))" "tour res = (if True then closing t else t)" .
  with run hd show ?thesis
    by (simp add: finalTour_def dispatch_ni)
qed


lemma convexHull_final:
  assumes "distinct ps" and "2 \<le> length ps"
  shows "\<exists>h. finalTour (dispatch ''convex-hull'' r (\<lambda>_. False) ps) = Some h \<and>
           hd h = hd (sortedPoints ps)"
proof -
  from convexHull_trace[OF assms, of "\<lambda>_. False"] obtain res states where
    run: "convexHull (\<lambda>_. False) ps = Some res"
    and hd: "hd states = (hullPoints ps, filter (\<lambda>p. p \<notin> set (hullPoints ps)) ps)"
    and tr: "loop_trace moves_inside False closing (\<lambda>_. False) 0 [closing (hullPoints ps)] res states" .
  from tr have ne: "states \<noteq> []" and succ: "successively moves_inside states"
    and best: "best res = Some (closing (fst (last states)), pathCost (closing (fst (last states))))"
    by (simp_all add: loop_trace_def)
  have "fst (hd states) \<noteq> []" using hd hullPoints_not_Nil[OF assms] by simp
  from trace_hd[OF succ ne this] hd have "hd (fst (last states)) = hd (hullPoints ps)" by simp
  with hullPoints_hd[OF assms] have "hd (closing (fst (last states))) = hd (sortedPoints ps)"
    by (simp add: hd_closing)
  with run best show ?thesis by (simp add: finalTour_def dispatch_ch)
qed

text \<open>
  C5 (as amended). Nearest insertion draws its start point: the final tour of a run that is
  not stopped begins with the drawn point, so two runs on the same set of distinct points
  publish the same final tour exactly when they draw the same index. The hull strategy
  makes no draw: its final tour is the same whatever \<^verbatim>\<open>Math.random\<close> would return, and it
  begins with the least point of the set in the order by \<^verbatim>\<open>x\<close>, then \<^verbatim>\<open>y\<close>.
\<close>

theorem hull_deterministic_nearest_by_start:
  assumes "distinct ps" and "2 \<le> length ps" and "r < length ps" and "r' < length ps"
  shows "\<exists>t t' h.
           finalTour (dispatch ''nearest-insertion'' r (\<lambda>_. False) ps) = Some t \<and>
           finalTour (dispatch ''nearest-insertion'' r' (\<lambda>_. False) ps) = Some t' \<and>
           hd t = ps ! r \<and> hd t' = ps ! r' \<and> (t = t' \<longleftrightarrow> r = r') \<and>
           finalTour (dispatch ''convex-hull'' r (\<lambda>_. False) ps) = Some h \<and>
           finalTour (dispatch ''convex-hull'' r' (\<lambda>_. False) ps) = Some h \<and>
           hd h = hd (sortedPoints ps) \<and>
           (\<forall>p\<in>set ps. p = hd h \<or> lexlt (hd h) p)"
proof -
  from nearestInsertion_final[OF assms(1,2,3)] obtain t where
    t: "finalTour (dispatch ''nearest-insertion'' r (\<lambda>_. False) ps) = Some t" "hd t = ps ! r"
    by blast
  from nearestInsertion_final[OF assms(1,2,4)] obtain t' where
    t': "finalTour (dispatch ''nearest-insertion'' r' (\<lambda>_. False) ps) = Some t'" "hd t' = ps ! r'"
    by blast
  from convexHull_final[OF assms(1,2), of r] obtain h where
    h: "finalTour (dispatch ''convex-hull'' r (\<lambda>_. False) ps) = Some h" "hd h = hd (sortedPoints ps)"
    by blast
  have h': "finalTour (dispatch ''convex-hull'' r' (\<lambda>_. False) ps) = Some h"
    using h(1) by (simp add: dispatch_ch)
  have iff: "t = t' \<longleftrightarrow> r = r'"
  proof
    assume "t = t'"
    with t(2) t'(2) have "ps ! r = ps ! r'" by simp
    with assms(1,3,4) show "r = r'" by (simp add: nth_eq_iff_index_eq)
  next
    assume "r = r'"
    with t(1) t'(1) show "t = t'" by simp
  qed
  have least: "\<forall>p\<in>set ps. p = hd h \<or> lexlt (hd h) p"
    using sortedPoints_least[OF assms(1)] h(2) by simp
  from t t' iff h h' least show ?thesis by blast
qed

theorem hull_deterministic_nearest_by_start_witness:
  "distinct fivePoints \<and> 2 \<le> length fivePoints \<and> 0 < length fivePoints \<and> 1 < length fivePoints \<and>
   (\<exists>t t' h.
      finalTour (dispatch ''nearest-insertion'' 0 (\<lambda>_. False) fivePoints) = Some t \<and>
      finalTour (dispatch ''nearest-insertion'' 1 (\<lambda>_. False) fivePoints) = Some t' \<and>
      hd t = pt 20 15 \<and> hd t' = pt 40 15 \<and> t \<noteq> t' \<and>
      finalTour (dispatch ''convex-hull'' 0 (\<lambda>_. False) fivePoints) = Some h \<and>
      finalTour (dispatch ''convex-hull'' 1 (\<lambda>_. False) fivePoints) = Some h \<and>
      hd h = hd (sortedPoints fivePoints))"
proof -
  have h1: "distinct fivePoints" by (simp add: fivePoints_def pt_def)
  have h2: "2 \<le> length fivePoints" by (simp add: fivePoints_def)
  have h3: "0 < length fivePoints" by (simp add: fivePoints_def)
  have h4: "1 < length fivePoints" by (simp add: fivePoints_def)
  from hull_deterministic_nearest_by_start[OF h1 h2 h3 h4] obtain t t' h where
    t: "finalTour (dispatch ''nearest-insertion'' 0 (\<lambda>_. False) fivePoints) = Some t"
    and t': "finalTour (dispatch ''nearest-insertion'' 1 (\<lambda>_. False) fivePoints) = Some t'"
    and hd: "hd t = fivePoints ! 0" "hd t' = fivePoints ! 1"
    and iff: "t = t' \<longleftrightarrow> (0::nat) = 1"
    and h: "finalTour (dispatch ''convex-hull'' 0 (\<lambda>_. False) fivePoints) = Some h"
      "finalTour (dispatch ''convex-hull'' 1 (\<lambda>_. False) fivePoints) = Some h"
      "hd h = hd (sortedPoints fivePoints)"
    by blast
  from iff have neq: "t \<noteq> t'" by simp
  from hd have hd': "hd t = pt 20 15" "hd t' = pt 40 15" by (simp_all add: fivePoints_def)
  from h1 h2 h3 h4 t t' hd' neq h show ?thesis by blast
qed

text \<open>
  C5 as stated fails for nearest insertion: on the same five points the run that draws
  index \<open>0\<close> and the run that draws index \<open>1\<close> publish different final tours.
\<close>

theorem nearest_insertion_counterexample:
  "finalTour (dispatch ''nearest-insertion'' 0 (\<lambda>_. False) fivePoints) \<noteq> None \<and>
   finalTour (dispatch ''nearest-insertion'' 0 (\<lambda>_. False) fivePoints) \<noteq>
     finalTour (dispatch ''nearest-insertion'' 1 (\<lambda>_. False) fivePoints)"
proof -
  have h1: "distinct fivePoints" by (simp add: fivePoints_def pt_def)
  have h2: "2 \<le> length fivePoints" by (simp add: fivePoints_def)
  from nearestInsertion_final[OF h1 h2, of 0] obtain t0 where
    t0: "finalTour (dispatch ''nearest-insertion'' 0 (\<lambda>_. False) fivePoints) = Some t0"
      "hd t0 = fivePoints ! 0" by (auto simp: fivePoints_def)
  from nearestInsertion_final[OF h1 h2, of 1] obtain t1 where
    t1: "finalTour (dispatch ''nearest-insertion'' 1 (\<lambda>_. False) fivePoints) = Some t1"
      "hd t1 = fivePoints ! 1" by (auto simp: fivePoints_def)
  have "fivePoints ! 0 \<noteq> fivePoints ! 1" by (simp add: fivePoints_def pt_def)
  with t0 t1 show ?thesis by auto
qed


section \<open>C7: furthest insertion\<close>

lemma hd_sort_key_least:
  assumes "xs \<noteq> []" and "x \<in> set xs"
  shows "f (hd (sort_key f xs)) \<le> f x"
proof -
  from assms(1) have ne: "sort_key f xs \<noteq> []"
    by (metis length_0_conv length_sort)
  then obtain y ys where ys: "sort_key f xs = y # ys" by (cases "sort_key f xs") auto
  have "sorted (map f (sort_key f xs))" by simp
  with ys have "\<forall>z\<in>set ys. f y \<le> f z" by simp
  moreover from assms(2) have "x \<in> set (sort_key f xs)" by simp
  ultimately show ?thesis using ys by auto
qed

lemma fi_sorted_furthest:
  assumes "2 \<le> length ps"
  shows "take 1 (fi_sorted ps) = [hd (fi_sorted ps)]" and "hd (fi_sorted ps) \<in> set (tl ps)"
    and "\<forall>p\<in>set (tl ps). distance (hd ps) p \<le> distance (hd ps) (hd (fi_sorted ps))"
proof -
  from assms have ne: "tl ps \<noteq> []" by (cases ps; cases "tl ps") auto
  then have sne: "fi_sorted ps \<noteq> []"
    unfolding fi_sorted_def by (metis length_0_conv length_sort)
  then show "take 1 (fi_sorted ps) = [hd (fi_sorted ps)]"
    by (cases "fi_sorted ps") simp_all
  from sne have "hd (fi_sorted ps) \<in> set (fi_sorted ps)" by simp
  then show "hd (fi_sorted ps) \<in> set (tl ps)" by (simp add: fi_sorted_def)
  show "\<forall>p\<in>set (tl ps). distance (hd ps) p \<le> distance (hd ps) (hd (fi_sorted ps))"
  proof
    fix p assume "p \<in> set (tl ps)"
    from hd_sort_key_least[OF ne this, of "\<lambda>p. - distance (hd ps) p"]
    show "distance (hd ps) p \<le> distance (hd ps) (hd (fi_sorted ps))"
      by (simp add: fi_sorted_def)
  qed
qed


text \<open>
  C7. Furthest insertion starts its tour with the first point of the set, with no random
  draw, and makes a point of greatest distance from it the second tour point; the other
  points remain, in the order of falling distance from the first. The first step shows
  these two points before the loop is entered. Every round of the loop is a
  \<open>furthest_round\<close>: of the remaining points, the first whose least distance to the points
  of the tour (\<open>gap\<close>) is greatest is selected, and it is inserted between the first pair of
  cyclic neighbours of the tour whose \<open>insertionCost\<close> is least. The loop makes a round as
  long as points remain and the flag is unset; every round is shown by a step, and a run
  that is not stopped closes the tour.
\<close>

theorem furthest_insertion_contract:
  assumes "distinct ps" and "2 \<le> length ps"
  shows "\<exists>res second states.
           furthestInsertion stop ps = Some (Inr res) \<and>
           second \<in> set (tl ps) \<and>
           (\<forall>p\<in>set (tl ps). distance (hd ps) p \<le> distance (hd ps) second) \<and>
           second = hd (fi_sorted ps) \<and>
           hd states = ([hd ps, second], tl (fi_sorted ps)) \<and>
           loop_trace furthest_round True (\<lambda>t. t) stop 0 [[hd ps, second]] res states"
proof -
  note far = fi_sorted_furthest[OF assms(2)]
  from furthestInsertion_trace[OF assms, of stop] obtain res states where
    "furthestInsertion stop ps = Some (Inr res)"
    "hd states = ([hd ps, hd (fi_sorted ps)], tl (fi_sorted ps))"
    "loop_trace furthest_round True (\<lambda>t. t) stop 0 [[hd ps, hd (fi_sorted ps)]] res states" .
  with far(2,3) show ?thesis by blast
qed

theorem furthest_insertion_contract_witness:
  "distinct fivePoints \<and> 2 \<le> length fivePoints \<and>
   (\<exists>res second states.
      furthestInsertion (\<lambda>_. False) fivePoints = Some (Inr res) \<and>
      second \<in> set (tl fivePoints) \<and>
      hd states = ([pt 20 15, second], tl (fi_sorted fivePoints)) \<and>
      loop_trace furthest_round True (\<lambda>t. t) (\<lambda>_. False) 0 [[pt 20 15, second]] res states \<and>
      length states = 4 \<and> steps res = map fst states \<and>
      remaining res = [] \<and> \<not> stopped res \<and> tour res = closing (fst (last states)))"
proof -
  have h1: "distinct fivePoints" by (simp add: fivePoints_def pt_def)
  have h2: "2 \<le> length fivePoints" by (simp add: fivePoints_def)
  from furthest_insertion_contract[OF h1 h2, of "\<lambda>_. False"] obtain res second states where
    run: "furthestInsertion (\<lambda>_. False) fivePoints = Some (Inr res)"
    and mem: "second \<in> set (tl fivePoints)"
    and hd: "hd states = ([hd fivePoints, second], tl (fi_sorted fivePoints))"
    and tr: "loop_trace furthest_round True (\<lambda>t. t) (\<lambda>_. False) 0 [[hd fivePoints, second]] res states"
    by blast
  have first: "hd fivePoints = pt 20 15" by (simp add: fivePoints_def)
  have mono: "\<And>s s'. furthest_round s s' \<Longrightarrow> moves_one s s'"
    using furthest_round_moves_inside moves_inside_moves_one by blast
  note fin = finished_trace[OF loop_trace_mono[OF tr mono]]
  have "length (tl (fi_sorted fivePoints)) = 3"
    by (simp add: fi_sorted_def fivePoints_def)
  with fin(8) hd have four: "length states = 4" by simp
  from fin(7) have "states = hd states # tl states" by simp
  then have "map fst states = fst (hd states) # map fst (tl states)" by (metis list.simps(9))
  with fin(5) hd have steps: "steps res = map fst states" by simp
  from tr fin(3) have tour: "tour res = closing (fst (last states))" by (simp add: loop_trace_def)
  from run mem hd tr four steps fin(2,3) tour h1 h2 show ?thesis
    unfolding first by blast
qed

section \<open>C8: a strategy name that is not known\<close>

lemma dispatch_unknown: "name \<notin> set strategies \<Longrightarrow> dispatch name r stop ps = NotImplemented"
  by (simp add: dispatch_def strategies_def)

text \<open>
  C8 (as amended). With a name that is none of the five, \<^verbatim>\<open>startAlgorithm\<close> starts no
  strategy and returns normally: no error reaches the caller. It has cleared the current
  and the best path and installed a fresh flag, it leaves \<^verbatim>\<open>isRunning\<close> false, and it has
  written the line \<^verbatim>\<open>Algorithm not implemented\<close> to the console.
\<close>

theorem unknown_strategy_is_logged:
  assumes "algorithm st \<notin> set strategies"
  shows "startAlgorithm r stop st =
           Inr (st\<lparr>isRunning := False, currentPath := [], bestPath := [],
                   algorithmRef := Some False,
                   console := console st @ [''Algorithm not implemented'']\<rparr>, NotImplemented)"
  using dispatch_unknown[OF assms] by (simp add: startAlgorithm_def)

theorem unknown_strategy_is_logged_witness:
  "algorithm (initialState\<lparr>algorithm := ''two-opt'', points := fivePoints\<rparr>) \<notin> set strategies \<and>
   startAlgorithm 0 (\<lambda>_. False) (initialState\<lparr>algorithm := ''two-opt'', points := fivePoints\<rparr>) =
     Inr (initialState\<lparr>algorithm := ''two-opt'', points := fivePoints, isRunning := False,
                       currentPath := [], bestPath := [], algorithmRef := Some False,
                       console := [''Algorithm not implemented'']\<rparr>, NotImplemented)"
proof -
  have h: "algorithm (initialState\<lparr>algorithm := ''two-opt'', points := fivePoints\<rparr>) \<notin> set strategies"
    by (simp add: strategies_def)
  show ?thesis
    using h unknown_strategy_is_logged[OF h, of 0 "\<lambda>_. False"] by (simp add: initialState_def)
qed

text \<open>
  C8 as stated fails: asked for \<^verbatim>\<open>two-opt\<close>, \<^verbatim>\<open>startAlgorithm\<close> returns normally; the only
  trace is a line on the console.
\<close>

theorem unknown_strategy_counterexample:
  "\<not> isl (startAlgorithm 0 (\<lambda>_. False) (initialState\<lparr>algorithm := ''two-opt'', points := fivePoints\<rparr>)) \<and>
   snd (projr (startAlgorithm 0 (\<lambda>_. False)
      (initialState\<lparr>algorithm := ''two-opt'', points := fivePoints\<rparr>))) = NotImplemented \<and>
   console (fst (projr (startAlgorithm 0 (\<lambda>_. False)
      (initialState\<lparr>algorithm := ''two-opt'', points := fivePoints\<rparr>)))) =
     [''Algorithm not implemented'']"
  by (simp add: startAlgorithm_def dispatch_def initialState_def)

section \<open>C9: the point set after a run\<close>

text \<open>
  In \<^verbatim>\<open>tsp-visualizer.tsx\<close> no strategy writes to \<^verbatim>\<open>points\<close>: they read \<^verbatim>\<open>points[i]\<close> and work
  on copies (\<^verbatim>\<open>filter\<close>, \<^verbatim>\<open>slice\<close>, \<^verbatim>\<open>[...points]\<close>).
\<close>

lemma startAlgorithm_keeps_points:
  "startAlgorithm r stop st = Inr (st', l) \<Longrightarrow> points st' = points st"
  by (auto simp: startAlgorithm_def Let_def split: launch.splits)

text \<open>
  C9 fails on the older copy, \<^verbatim>\<open>src/unnamed/part_000\<close>: after a run of its furthest
  insertion on five points the state array holds four, the first point is gone.
\<close>

theorem furthest_insertion_old_drops_point:
  "fst (furthestInsertion_old (\<lambda>_. False) fivePoints) =
     [pt 40 15, pt 40 45, pt 20 45, pt 60 30] \<and>
   fst (furthestInsertion_old (\<lambda>_. False) fivePoints) \<noteq> fivePoints"
  by (simp add: furthestInsertion_old_def fivePoints_def)

section \<open>Sample runs\<close>

lemma pt_eq: "pt a b = pt c d \<longleftrightarrow> a = c \<and> b = d"
  by (simp add: pt_def)

text \<open>
  The hull of the four corners of a rectangle and a point inside it: the corners,
  counter-clockwise from the least one; the inner point remains for the insertion loop.
\<close>

lemma hull_of_rectangle:
  "hullPoints [pt 20 15, pt 60 15, pt 60 45, pt 20 45, pt 40 30] =
     [pt 20 15, pt 60 15, pt 60 45, pt 20 45]"
  by (simp add: hullPoints_def sortedPoints_def halfHull_def hullPush_def cross_def pt_def
      less_eq_prod_def)

lemma fsqrt_625: "fsqrt 625 = 25"
proof -
  have "sqrt 625 = 25" by (rule real_sqrt_unique) simp_all
  then show ?thesis by (simp add: fsqrt_def rnd_Ints)
qed

lemma fsqrt_1600: "fsqrt 1600 = 40"
proof -
  have "sqrt 1600 = 40" by (rule real_sqrt_unique) simp_all
  then show ?thesis by (simp add: fsqrt_def rnd_Ints)
qed

lemma fsqrt_3600: "fsqrt 3600 = 60"
proof -
  have "sqrt 3600 = 60" by (rule real_sqrt_unique) simp_all
  then show ?thesis by (simp add: fsqrt_def rnd_Ints)
qed

lemma fsqrt_900: "fsqrt 900 = 30"
proof -
  have "sqrt 900 = 30" by (rule real_sqrt_unique) simp_all
  then show ?thesis by (simp add: fsqrt_def rnd_Ints)
qed

lemma fsqrt_2425: "fsqrt 2425 = 6930517550967803 / 140737488355328"
  unfolding fsqrt_def using rnd_sqrt[of 6930517550967803 2425 47] by simp

lemma fsqrt_3825: "fsqrt 3825 = 8704132949597293 / 140737488355328"
  unfolding fsqrt_def using rnd_sqrt[of 8704132949597293 3825 47] by simp

lemma fsqrt_10225: "fsqrt 10225 = 1778899723262459 / 17592186044416"
  unfolding fsqrt_def using rnd_sqrt[of 7115598893049836 10225 46] by simp

lemma fadd_sample_1: "fadd 0 25 = 25"
  by (simp add: fadd_def rnd_Ints)

lemma fadd_sample_2: "fadd 25 (6930517550967803 / 140737488355328) = 2612238689962751 / 35184372088832"
  unfolding fadd_def by (subst rnd_up[where n = 46]) (simp_all add: nearest_even_def)

lemma fadd_sample_3: "fadd (2612238689962751 / 35184372088832) (6930517550967803 / 140737488355328) = 2172434038852351 / 17592186044416"
  unfolding fadd_def by (subst rnd_up[where n = 46]) (simp_all add: nearest_even_def)

lemma fadd_sample_4: "fadd 25 60 = 85"
  by (simp add: fadd_def rnd_Ints)

lemma fadd_sample_5: "fadd 85 (6930517550967803 / 140737488355328) = 4723301015292671 / 35184372088832"
  unfolding fadd_def by (subst rnd_up[where n = 45]) (simp_all add: nearest_even_def)

lemma fadd_sample_6: "fadd 0 (6930517550967803 / 140737488355328) = 6930517550967803 / 140737488355328"
  unfolding fadd_def by (subst rnd_up[where n = 47]) (simp_all add: nearest_even_def)

lemma fadd_sample_7: "fadd (6930517550967803 / 140737488355328) 60 = 3843691713071871 / 35184372088832"
  unfolding fadd_def by (subst rnd_up[where n = 46]) (simp_all add: nearest_even_def)

lemma fadd_sample_8: "fadd (3843691713071871 / 35184372088832) 25 = 4723301015292671 / 35184372088832"
  unfolding fadd_def by (subst rnd_up[where n = 45]) (simp_all add: nearest_even_def)

lemma fadd_sample_9: "fadd (6930517550967803 / 140737488355328) (6930517550967803 / 140737488355328) = 6930517550967803 / 70368744177664"
  unfolding fadd_def by (subst rnd_up[where n = 46]) (simp_all add: nearest_even_def)

lemma fadd_sample_10: "fadd (6930517550967803 / 70368744177664) 25 = 8689736155409403 / 70368744177664"
  unfolding fadd_def by (subst rnd_up[where n = 46]) (simp_all add: nearest_even_def)

lemma fadd_sample_11: "fadd (8704132949597293 / 140737488355328) (1778899723262459 / 17592186044416) = 5733832683924241 / 35184372088832"
  unfolding fadd_def by (subst rnd_up[where n = 45]) (simp_all add: nearest_even_def)

lemma fsub_sample_12: "fsub (5733832683924241 / 35184372088832) 40 = 4326457800370961 / 35184372088832"
  unfolding fsub_def by (subst rnd_up[where n = 46]) (simp_all add: nearest_even_def)

lemma fadd_sample_13: "fadd (1778899723262459 / 17592186044416) 30 = 2306665304594939 / 17592186044416"
  unfolding fadd_def by (subst rnd_up[where n = 45]) (simp_all add: nearest_even_def)

lemma fsub_sample_14: "fsub (2306665304594939 / 17592186044416) (1778899723262459 / 17592186044416) = 30"
  unfolding fsub_def by (subst rnd_up[where n = 48]) (simp_all add: nearest_even_def)

lemma fadd_sample_15: "fadd 30 (8704132949597293 / 140737488355328) = 3231564400064283 / 35184372088832"
  unfolding fadd_def by (subst rnd_up[where n = 46]) (simp_all add: nearest_even_def)

lemma fsub_sample_16: "fsub (3231564400064283 / 35184372088832) (8704132949597293 / 140737488355328) = 4222124650659839 / 140737488355328"
  unfolding fsub_def by (subst rnd_up[where n = 48]) (simp_all add: nearest_even_def)

lemmas sample_sums = fadd_sample_1 fadd_sample_2 fadd_sample_3 fadd_sample_4 fadd_sample_5 fadd_sample_6 fadd_sample_7 fadd_sample_8 fadd_sample_9 fadd_sample_10 fadd_sample_11 fsub_sample_12 fadd_sample_13 fsub_sample_14 fadd_sample_15 fsub_sample_16

lemma distance_samples:
  "distance (pt 20 15) (pt 20 45) = 30"
  "distance (pt 20 15) (pt 80 30) = 8704132949597293 / 140737488355328"
  "distance (pt 20 15) (pt 120 30) = 1778899723262459 / 17592186044416"
  "distance (pt 20 30) (pt 40 15) = 25"
  "distance (pt 20 30) (pt 40 75) = 6930517550967803 / 140737488355328"
  "distance (pt 20 45) (pt 20 15) = 30"
  "distance (pt 20 45) (pt 80 30) = 8704132949597293 / 140737488355328"
  "distance (pt 40 15) (pt 20 30) = 25"
  "distance (pt 40 15) (pt 40 75) = 60"
  "distance (pt 40 15) (pt 60 30) = 25"
  "distance (pt 40 75) (pt 40 15) = 60"
  "distance (pt 40 75) (pt 60 30) = 6930517550967803 / 140737488355328"
  "distance (pt 60 30) (pt 40 15) = 25"
  "distance (pt 80 30) (pt 20 15) = 8704132949597293 / 140737488355328"
  "distance (pt 80 30) (pt 120 30) = 40"
  "distance (pt 120 30) (pt 20 15) = 1778899723262459 / 17592186044416"
  "distance (pt 120 30) (pt 20 45) = 1778899723262459 / 17592186044416"
  by (simp_all add: distance_def pt_def fsub_def fmul_def fadd_def rnd_Ints fsqrt_2425 fsqrt_3825
      fsqrt_10225 fsqrt_625 fsqrt_900 fsqrt_1600 fsqrt_3600)

text \<open>
  Arbitrary insertion, the point \<open>(40, 15)\<close> and the path \<open>(20, 30)\<close>, \<open>(40, 75)\<close>, \<open>(60, 30)\<close>. As
  real numbers the costs at the positions \<open>0\<close> and \<open>3\<close> are the same, \<open>25 + 2 * sqrt 2425\<close>.
  The doubles are sums in a different order and differ in the last place, so the scan, which
  keeps position \<open>0\<close> until it finds a smaller cost, moves to position \<open>3\<close>.
\<close>

lemma arbitrary_insertion_rounding:
  "pathCost (insertAt 0 (pt 40 15) [pt 20 30, pt 40 75, pt 60 30]) = 2172434038852351 / 17592186044416"
  "pathCost (insertAt 1 (pt 40 15) [pt 20 30, pt 40 75, pt 60 30]) = 4723301015292671 / 35184372088832"
  "pathCost (insertAt 2 (pt 40 15) [pt 20 30, pt 40 75, pt 60 30]) = 4723301015292671 / 35184372088832"
  "pathCost (insertAt 3 (pt 40 15) [pt 20 30, pt 40 75, pt 60 30]) = 8689736155409403 / 70368744177664"
  "ai_scan [pt 20 30, pt 40 75, pt 60 30] (pt 40 15) = (3, Some (8689736155409403 / 70368744177664))"
proof -
  show c0: "pathCost (insertAt 0 (pt 40 15) [pt 20 30, pt 40 75, pt 60 30]) = 2172434038852351 / 17592186044416"
    by (simp add: pathCost_def insertAt_def distance_samples sample_sums)
  show c1: "pathCost (insertAt 1 (pt 40 15) [pt 20 30, pt 40 75, pt 60 30]) = 4723301015292671 / 35184372088832"
    by (simp add: pathCost_def insertAt_def distance_samples sample_sums)
  show c2: "pathCost (insertAt 2 (pt 40 15) [pt 20 30, pt 40 75, pt 60 30]) = 4723301015292671 / 35184372088832"
    by (simp add: pathCost_def insertAt_def distance_samples sample_sums)
  show c3: "pathCost (insertAt 3 (pt 40 15) [pt 20 30, pt 40 75, pt 60 30]) = 8689736155409403 / 70368744177664"
    by (simp add: pathCost_def insertAt_def distance_samples sample_sums)
  have "[0..<Suc (length [pt 20 30, pt 40 75, pt 60 30])] = [0, 1, 2, 3]"
    by (simp add: upt_rec)
  moreover note c0 c1[unfolded One_nat_def] c2[unfolded numeral_2_eq_2] c3[unfolded numeral_3_eq_3]
  ultimately show "ai_scan [pt 20 30, pt 40 75, pt 60 30] (pt 40 15) = (3, Some (8689736155409403 / 70368744177664))"
    unfolding ai_scan_def by (simp add: ai_try_def Let_def)
qed

text \<open>
  Furthest insertion, the point \<open>(20, 15)\<close> and the path \<open>(80, 30)\<close>, \<open>(120, 30)\<close>, \<open>(20, 45)\<close>. As
  real numbers the insertion costs at the second and at the third pair of neighbours are
  both \<open>30\<close>. The doubles are \<open>30\<close> and the double just below it, and the point goes to
  index \<open>3\<close>.
\<close>

lemma furthest_insertion_rounding:
  "edgeCost [pt 80 30, pt 120 30, pt 20 45] 0 (pt 20 15) = 4326457800370961 / 35184372088832"
  "edgeCost [pt 80 30, pt 120 30, pt 20 45] 1 (pt 20 15) = 30"
  "edgeCost [pt 80 30, pt 120 30, pt 20 45] 2 (pt 20 15) = 4222124650659839 / 140737488355328"
  "fi_place [pt 80 30, pt 120 30, pt 20 45] (pt 20 15) = (Some (4222124650659839 / 140737488355328), 3)"
proof -
  show e0: "edgeCost [pt 80 30, pt 120 30, pt 20 45] 0 (pt 20 15) = 4326457800370961 / 35184372088832"
    by (simp add: edgeCost_def distance_samples sample_sums)
  show e1: "edgeCost [pt 80 30, pt 120 30, pt 20 45] 1 (pt 20 15) = 30"
    by (simp add: edgeCost_def distance_samples sample_sums)
  show e2: "edgeCost [pt 80 30, pt 120 30, pt 20 45] 2 (pt 20 15) = 4222124650659839 / 140737488355328"
    by (simp add: edgeCost_def distance_samples sample_sums)
  have "[0..<length [pt 80 30, pt 120 30, pt 20 45]] = [0, 1, 2]"
    by (simp add: upt_rec)
  moreover note e0 e1[unfolded One_nat_def] e2[unfolded numeral_2_eq_2]
  ultimately show "fi_place [pt 80 30, pt 120 30, pt 20 45] (pt 20 15) = (Some (4222124650659839 / 140737488355328), 3)"
    unfolding fi_place_def by (simp add: fi_try_def Let_def)
qed

lemma distance_of_corner: "distance (pt 40 30) (pt 20 15) = 25" "distance (pt 40 30) (pt 60 15) = 25"
  "distance (pt 40 30) (pt 60 45) = 25" "distance (pt 40 30) (pt 20 45) = 25"
  "distance (pt 20 15) (pt 40 30) = 25" "distance (pt 60 15) (pt 40 30) = 25"
  "distance (pt 60 45) (pt 40 30) = 25" "distance (pt 20 45) (pt 40 30) = 25"
  by (simp_all add: distance_def pt_def fsub_def fmul_def fadd_def rnd_Ints fsqrt_625)

text \<open>
  The run of the hull strategy on these five points: one step for the hull, one round that
  puts the inner point on the first edge of least insertion cost, and the closed tour.
\<close>

lemma convexHull_of_rectangle:
  "convexHull (\<lambda>_. False) [pt 20 15, pt 60 15, pt 60 45, pt 20 45, pt 40 30] =
     Some \<lparr>tour = [pt 20 15, pt 40 30, pt 60 15, pt 60 45, pt 20 45], remaining = [],
           steps = [[pt 20 15, pt 60 15, pt 60 45, pt 20 45, pt 20 15],
                    [pt 20 15, pt 40 30, pt 60 15, pt 60 45, pt 20 45, pt 20 15]],
           best = Some ([pt 20 15, pt 40 30, pt 60 15, pt 60 45, pt 20 45, pt 20 15], 150),
           stopped = False\<rparr>"
proof -
  let ?hull = "[pt 20 15, pt 60 15, pt 60 45, pt 20 45]"
  let ?path = "[pt 20 15, pt 40 30, pt 60 15, pt 60 45, pt 20 45]"
  have inner: "filter (\<lambda>p. p \<notin> set ?hull) [pt 20 15, pt 60 15, pt 60 45, pt 20 45, pt 40 30] = [pt 40 30]"
    by (simp add: pt_def)
  have scan: "ni_scan ?hull [pt 40 30] = (Some (pt 40 30), Some 10, 1)"
    by (simp add: ni_scan_def ni_try_def edgeCost_def upt_rec distance_of_corner
        distance_same_row distance_same_column fadd_def fsub_def rnd_Ints)
  have round: "ch_loop (\<lambda>_. False) 0 ?hull [pt 40 30] [closing ?hull] =
      ch_loop (\<lambda>_. False) (Suc 0) ?path [] [closing ?hull, closing ?path]"
    by (subst ch_loop.simps) (simp add: scan insertAt_def Let_def)
  have exit: "ch_loop (\<lambda>_. False) (Suc 0) ?path [] [closing ?hull, closing ?path] =
      Some (ai_finish False ?path [] [closing ?hull, closing ?path])"
    by (subst ch_loop.simps) simp
  show ?thesis
    unfolding convexHull_def hull_of_rectangle Let_def inner round exit
    by (simp add: ai_finish_def Let_def closing_def pathCost_def distance_of_corner
        distance_same_row distance_same_column fadd_def rnd_Ints)
qed

text \<open>A run of nearest neighbour on three points of one row, started at the first.\<close>

lemma nearestNeighbor_on_a_row:
  "nearestNeighbor 0 (\<lambda>_. False) [pt 20 15, pt 220 15, pt 60 15] =
     Inr \<lparr>tour = [pt 20 15, pt 60 15, pt 220 15, pt 20 15], remaining = [],
          steps = [[pt 20 15, pt 60 15], [pt 20 15, pt 60 15, pt 220 15]],
          best = Some ([pt 20 15, pt 60 15, pt 220 15, pt 20 15], 400), stopped = False\<rparr>"
proof -
  have first: "nn_loop (\<lambda>_. False) 0 (pt 20 15) [pt 20 15] [pt 220 15, pt 60 15] [] =
      nn_loop (\<lambda>_. False) (Suc 0) (pt 20 15) [pt 20 15, pt 60 15] [pt 220 15] [[pt 20 15, pt 60 15]]"
    by (subst nn_loop.simps) (simp add: Let_def distance_same_row)
  have second: "nn_loop (\<lambda>_. False) (Suc 0) (pt 20 15) [pt 20 15, pt 60 15] [pt 220 15] [[pt 20 15, pt 60 15]] =
      nn_loop (\<lambda>_. False) (Suc (Suc 0)) (pt 20 15) [pt 20 15, pt 60 15, pt 220 15] []
        [[pt 20 15, pt 60 15], [pt 20 15, pt 60 15, pt 220 15]]"
    by (subst nn_loop.simps) (simp add: Let_def)
  have exit: "nn_loop (\<lambda>_. False) (Suc (Suc 0)) (pt 20 15) [pt 20 15, pt 60 15, pt 220 15] []
        [[pt 20 15, pt 60 15], [pt 20 15, pt 60 15, pt 220 15]] =
      nn_finish False (pt 20 15) [pt 20 15, pt 60 15, pt 220 15] []
        [[pt 20 15, pt 60 15], [pt 20 15, pt 60 15, pt 220 15]]"
    by (subst nn_loop.simps) simp
  show ?thesis
    unfolding nearestNeighbor_def
    by (simp add: Let_def pt_eq first second exit nn_finish_def pathCost_def distance_same_row
        fadd_def rnd_Ints)
qed

text \<open>
  On whole coordinates of absolute value below \<open>2 ^ 25\<close> the doubles compute the cross
  product of the hull scan exactly: every difference, product and the final difference is
  a whole number below \<open>2 ^ 53\<close>. This is why \<open>cross\<close> is written with exact operations.
\<close>

lemma cross_on_whole_coordinates:
  assumes "px a \<in> \<int>" "py a \<in> \<int>" "px b \<in> \<int>" "py b \<in> \<int>" "px c \<in> \<int>" "py c \<in> \<int>"
    and "\<bar>px a\<bar> < 2 ^ 25" "\<bar>py a\<bar> < 2 ^ 25" "\<bar>px b\<bar> < 2 ^ 25" "\<bar>py b\<bar> < 2 ^ 25"
      "\<bar>px c\<bar> < 2 ^ 25" "\<bar>py c\<bar> < 2 ^ 25"
  shows "fsub (fmul (fsub (px a) (px c)) (fsub (py b) (py c)))
              (fmul (fsub (py a) (py c)) (fsub (px b) (px c))) = cross c a b"
proof -
  have diff: "\<And>x y. x \<in> \<int> \<Longrightarrow> y \<in> \<int> \<Longrightarrow> \<bar>x\<bar> < 2 ^ 25 \<Longrightarrow> \<bar>y\<bar> < 2 ^ 25 \<Longrightarrow>
      fsub x y = x - y \<and> x - y \<in> \<int> \<and> \<bar>x - y\<bar> < 2 ^ 26"
  proof -
    fix x y :: real
    assume x: "x \<in> \<int>" and y: "y \<in> \<int>" and bx: "\<bar>x\<bar> < 2 ^ 25" and "by": "\<bar>y\<bar> < 2 ^ 25"
    have Z: "x - y \<in> \<int>" using x y by simp
    have b: "\<bar>x - y\<bar> < 2 ^ 26" using bx "by" by simp
    then have "\<bar>x - y\<bar> < 2 ^ 53" by simp
    with Z have "fsub x y = x - y" unfolding fsub_def by (rule rnd_Ints)
    with Z b show "fsub x y = x - y \<and> x - y \<in> \<int> \<and> \<bar>x - y\<bar> < 2 ^ 26" by simp
  qed
  have prod: "\<And>x y. x \<in> \<int> \<Longrightarrow> y \<in> \<int> \<Longrightarrow> \<bar>x\<bar> < 2 ^ 26 \<Longrightarrow> \<bar>y\<bar> < 2 ^ 26 \<Longrightarrow>
      fmul x y = x * y \<and> x * y \<in> \<int> \<and> \<bar>x * y\<bar> < 2 ^ 52"
  proof -
    fix x y :: real
    assume x: "x \<in> \<int>" and y: "y \<in> \<int>" and bx: "\<bar>x\<bar> < 2 ^ 26" and "by": "\<bar>y\<bar> < 2 ^ 26"
    have Z: "x * y \<in> \<int>" using x y by simp
    have "\<bar>x\<bar> * \<bar>y\<bar> < 2 ^ 26 * 2 ^ 26"
      using bx "by" by (intro mult_strict_mono) simp_all
    then have b: "\<bar>x * y\<bar> < 2 ^ 52" by (simp add: abs_mult)
    then have "\<bar>x * y\<bar> < 2 ^ 53" by simp
    with Z have "fmul x y = x * y" unfolding fmul_def by (rule rnd_Ints)
    with Z b show "fmul x y = x * y \<and> x * y \<in> \<int> \<and> \<bar>x * y\<bar> < 2 ^ 52" by simp
  qed
  note d1 = diff[OF assms(1,5,7,11)] and d2 = diff[OF assms(4,6,10,12)]
    and d3 = diff[OF assms(2,6,8,12)] and d4 = diff[OF assms(3,5,9,11)]
  from d1 d2 have p1: "fmul (px a - px c) (py b - py c) = (px a - px c) * (py b - py c)"
    "(px a - px c) * (py b - py c) \<in> \<int>" "\<bar>(px a - px c) * (py b - py c)\<bar> < 2 ^ 52"
    using prod[of "px a - px c" "py b - py c"] by simp_all
  from d3 d4 have p2: "fmul (py a - py c) (px b - px c) = (py a - py c) * (px b - px c)"
    "(py a - py c) * (px b - px c) \<in> \<int>" "\<bar>(py a - py c) * (px b - px c)\<bar> < 2 ^ 52"
    using prod[of "py a - py c" "px b - px c"] by simp_all
  have Z: "(px a - px c) * (py b - py c) - (py a - py c) * (px b - px c) \<in> \<int>"
    using p1(2) p2(2) by simp
  have "\<bar>(px a - px c) * (py b - py c) - (py a - py c) * (px b - px c)\<bar> < 2 ^ 53"
    using p1(3) p2(3) by simp
  with Z have "fsub ((px a - px c) * (py b - py c)) ((py a - py c) * (px b - px c)) =
      (px a - px c) * (py b - py c) - (py a - py c) * (px b - px c)"
    unfolding fsub_def by (rule rnd_Ints)
  then show ?thesis
    using d1 d2 d3 d4 p1(1) p2(1) by (simp add: cross_def)
qed

text \<open>\<^verbatim>\<open>resetVisualization\<close> sets the flag of the run that \<^verbatim>\<open>startAlgorithm\<close> has started.\<close>

lemma resetVisualization_sets_flag:
  "startAlgorithm r stop st = Inr (st', l) \<Longrightarrow> algorithmRef (resetVisualization st') = Some True"
  by (auto simp: startAlgorithm_def resetVisualization_def Let_def split: launch.splits)

end
